theory Spec2Isabelle
  imports Main "HOL-Library.Word"
begin

unbundle bit_operations_syntax

section \<open>Bytes, Python exceptions and checked indexing\<close>

text \<open>
  A Python \<open>bytes\<close> or \<open>bytearray\<close> value is a list of 8-bit words; Python's unbounded
  integers are \<open>int\<close>, and lengths, offsets and counters that the code keeps
  non-negative are \<open>nat\<close>. Every exception the modelled code can raise is a value of
  \<open>py_error\<close>, returned as \<open>Inl\<close>.
\<close>

type_synonym byte = "8 word"

datatype py_error = IndexError | ValueError | StructError | OSError | CallbackError

definition bind_err :: "py_error + 'a \<Rightarrow> ('a \<Rightarrow> py_error + 'b) \<Rightarrow> py_error + 'b" where
  "bind_err m f = (case m of Inl e \<Rightarrow> Inl e | Inr x \<Rightarrow> f x)"

text \<open>\<open>data[i]\<close> for a non-negative index: IndexError when out of range.\<close>

definition get :: "'a list \<Rightarrow> nat \<Rightarrow> py_error + 'a" where
  "get xs i = (if i < length xs then Inr (xs ! i) else Inl IndexError)"

text \<open>\<open>data[a:b]\<close> for non-negative bounds: slicing never raises.\<close>

definition slice :: "'a list \<Rightarrow> nat \<Rightarrow> nat \<Rightarrow> 'a list" where
  "slice xs a b = drop a (take b xs)"

section \<open>lz10util.py: decompress_lz10\<close>

text \<open>
  The innermost loop of the decoder (lines 25-29): copy up to \<open>length\<close> bytes from
  \<open>copy_pos\<close>, stopping at the first position outside the output.
\<close>

fun copy_loop :: "nat \<Rightarrow> int \<Rightarrow> byte list \<Rightarrow> py_error + byte list" where
  "copy_loop 0 copy_pos out = Inr out"
| "copy_loop (Suc k) copy_pos out =
     (if copy_pos < 0 \<or> copy_pos \<ge> int (length out) then Inr out
      else bind_err (get out (nat copy_pos)) (\<lambda>b. copy_loop k (copy_pos + 1) (out @ [b])))"

text \<open>
  The \<open>for bit in range(8)\<close> loop (lines 10-29) as a recursion on the bit index; the state
  is the read position \<open>src_i\<close> and the output so far.
\<close>

function bit_loop ::
  "byte list \<Rightarrow> nat \<Rightarrow> nat \<Rightarrow> nat \<Rightarrow> nat \<Rightarrow> byte list \<Rightarrow> py_error + (nat \<times> byte list)" where
  "bit_loop data dst_size flags bitn src_i out =
     (if bitn \<ge> 8 then Inr (src_i, out)
      else if length out \<ge> dst_size \<or> src_i \<ge> length data then Inr (src_i, out)
      else if flags AND drop_bit bitn 128 = 0 then
        bind_err (get data src_i) (\<lambda>b.
          bit_loop data dst_size flags (bitn + 1) (src_i + 1) (out @ [b]))
      else if src_i + 1 \<ge> length data then Inr (src_i, out)
      else
        bind_err (get data src_i) (\<lambda>b1.
        bind_err (get data (src_i + 1)) (\<lambda>b2.
          let disp = push_bit 8 (unat b1 AND 15) OR unat b2;
              len = drop_bit 4 (unat b1) + 3;
              copy_pos = int (length out) - (int disp + 1)
          in bind_err (copy_loop len copy_pos out) (\<lambda>out'.
               bit_loop data dst_size flags (bitn + 1) (src_i + 2) out'))))"
  by pat_completeness auto
termination
  by (relation "measure (\<lambda>(data, dst_size, flags, bitn, src_i, out). 8 - bitn)") auto

declare bit_loop.simps [simp del]

lemma bit_loop_src_mono:
  "bit_loop data dst_size flags bitn src_i out = Inr (s, out') \<Longrightarrow> src_i \<le> s"
proof (induction data dst_size flags bitn src_i out rule: bit_loop.induct)
  case (1 data dst_size flags bitn src_i out)
  show ?case
    using "1.prems" "1.IH"
    by (subst (asm) bit_loop.simps)
       (fastforce simp: bind_err_def Let_def split: if_splits sum.splits)
qed

text \<open>
  The \<open>while\<close> loop (lines 7-29): one flag byte and its eight operations per round.
  The result is the state at exit: the read position \<open>src_i\<close> and the output.
\<close>

function outer_loop ::
  "byte list \<Rightarrow> nat \<Rightarrow> nat \<Rightarrow> byte list \<Rightarrow> py_error + (nat \<times> byte list)" where
  "outer_loop data dst_size src_i out =
     (if length out < dst_size \<and> src_i < length data then
        (case get data src_i of
           Inl e \<Rightarrow> Inl e
         | Inr flags \<Rightarrow>
             (case bit_loop data dst_size (unat flags) 0 (src_i + 1) out of
                Inl e \<Rightarrow> Inl e
              | Inr (src_i', out') \<Rightarrow> outer_loop data dst_size src_i' out'))
      else Inr (src_i, out))"
  by pat_completeness auto
termination
proof (relation "measure (\<lambda>(data, dst_size, src_i, out). length data - src_i)")
  show "wf (measure (\<lambda>(data, dst_size, src_i, out). length data - src_i))"
    by simp
next
  fix data :: "byte list" and dst_size src_i :: nat and out :: "byte list"
    and flags :: byte and r :: "nat \<times> byte list" and s :: nat and out' :: "byte list"
  assume a: "length out < dst_size \<and> src_i < length data"
    and b: "bit_loop data dst_size (unat flags) 0 (src_i + 1) out = Inr r"
    and c: "(s, out') = r"
  from b c have "src_i + 1 \<le> s"
    using bit_loop_src_mono [of data dst_size "unat flags" 0 "src_i + 1" out s out'] by simp
  with a show "((data, dst_size, s, out'), (data, dst_size, src_i, out))
      \<in> measure (\<lambda>(data, dst_size, src_i, out). length data - src_i)"
    by auto
qed

declare outer_loop.simps [simp del]

definition decompress_lz10 :: "byte list \<Rightarrow> py_error + byte list" where
  "decompress_lz10 data =
     (if data = [] then Inr data
      else bind_err (get data 0) (\<lambda>tag.
        if tag \<noteq> 16 then Inr data
        else
          bind_err (get data 1) (\<lambda>d1.
          bind_err (get data 2) (\<lambda>d2.
          bind_err (get data 3) (\<lambda>d3.
            let dst_size = (unat d1 OR push_bit 8 (unat d2)) OR push_bit 16 (unat d3);
                src_i = 4
            in bind_err (outer_loop data dst_size src_i [])
                 (\<lambda>(src_i', out). Inr (take dst_size out)))))))"

section \<open>saverom.py: allocation entries, modification records and the tracker\<close>

text \<open>
  \<open>struct.pack('<I', v)\<close>: four little-endian bytes, or struct.error when \<open>v\<close> is
  outside the unsigned 32-bit range. \<open>struct.unpack('<I', b)\<close> on exactly four bytes.
\<close>

definition pack_u32 :: "int \<Rightarrow> py_error + byte list" where
  "pack_u32 v =
     (if 0 \<le> v \<and> v < 2 ^ 32
      then Inr [word_of_int v, word_of_int (drop_bit 8 v),
                word_of_int (drop_bit 16 v), word_of_int (drop_bit 24 v)]
      else Inl StructError)"

definition unpack_u32 :: "byte list \<Rightarrow> py_error + int" where
  "unpack_u32 b =
     (case b of
        [b0, b1, b2, b3] \<Rightarrow>
          Inr (uint b0 + 2 ^ 8 * uint b1 + 2 ^ 16 * uint b2 + 2 ^ 24 * uint b3)
      | _ \<Rightarrow> Inl StructError)"

record FATEntry =
  start_addr :: int
  end_addr :: int

text \<open>The property \<open>FATEntry.size\<close>, and \<open>FATEntry.from_bytes\<close> / \<open>to_bytes\<close>.\<close>

definition entry_size :: "FATEntry \<Rightarrow> int" where
  "entry_size e = end_addr e - start_addr e"

definition FATEntry_from_bytes :: "byte list \<Rightarrow> py_error + FATEntry" where
  "FATEntry_from_bytes data =
     (if length (slice data 0 8) \<noteq> 8 then Inl StructError
      else bind_err (unpack_u32 (slice data 0 4)) (\<lambda>s.
           bind_err (unpack_u32 (slice data 4 8)) (\<lambda>e.
             Inr \<lparr>start_addr = s, end_addr = e\<rparr>)))"

definition FATEntry_to_bytes :: "FATEntry \<Rightarrow> py_error + byte list" where
  "FATEntry_to_bytes e =
     bind_err (pack_u32 (start_addr e)) (\<lambda>a.
     bind_err (pack_u32 (end_addr e)) (\<lambda>b. Inr (a @ b)))"

text \<open>
  A \<open>ModificationRecord\<close>. Paths are strings; the timestamp is the clock reading taken
  at registration.
\<close>

record ModificationRecord =
  file_path :: string
  new_data :: "byte list"
  mod_type :: string
  timestamp :: nat
  fat_index :: int

definition mod_size :: "ModificationRecord \<Rightarrow> int" where
  "mod_size m = int (length (new_data m))"


text \<open>
  The tracker's \<open>_mods\<close> is a Python dict, which keeps insertion order: an association
  list in which assigning to an existing key replaces the value where it stands and a
  new key is appended.
\<close>

type_synonym tracker = "(string \<times> ModificationRecord) list"

fun dict_set :: "'k \<Rightarrow> 'v \<Rightarrow> ('k \<times> 'v) list \<Rightarrow> ('k \<times> 'v) list" where
  "dict_set k v [] = [(k, v)]"
| "dict_set k v ((k', v') # kvs) =
     (if k' = k then (k, v) # kvs else (k', v') # dict_set k v kvs)"

text \<open>
  \<open>ModificationTracker.register\<close> (lines 227-237). \<open>Path.resolve\<close> depends on the
  file system and \<open>datetime.now\<close> on the clock: both are parameters. The result is the
  returned flag and the tracker's new \<open>_mods\<close>.
\<close>

definition register ::
  "(string \<Rightarrow> string) \<Rightarrow> nat \<Rightarrow> string \<Rightarrow> byte list \<Rightarrow> string \<Rightarrow> tracker \<Rightarrow> bool \<times> tracker" where
  "register resolve now path data mtype mods =
     (if data = [] then (False, mods)
      else
        let key = resolve path;
            record = \<lparr>file_path = resolve path, new_data = data, mod_type = mtype,
                       timestamp = now, fat_index = - 1\<rparr>
        in (True, dict_set key record mods))"

definition count :: "tracker \<Rightarrow> nat" where
  "count mods = length mods"

section \<open>saverom.py: applying modifications\<close>

text \<open>\<open>_align4\<close> (line 594): \<open>value + 3 & ~3\<close> on Python integers.\<close>

definition align4 :: "int \<Rightarrow> int" where
  "align4 v = (v + 3) AND NOT 3"

text \<open>
  The output ROM file is its byte contents. \<open>seek(pos)\<close> followed by \<open>write(bs)\<close>:
  a negative position raises OSError; writing no bytes leaves the file as it is; writing
  past the end extends the file, and a gap between the old end and \<open>pos\<close> reads as
  zero bytes.
\<close>

definition seek_write :: "int \<Rightarrow> byte list \<Rightarrow> byte list \<Rightarrow> py_error + byte list" where
  "seek_write pos bs file =
     (if pos < 0 then Inl OSError
      else if bs = [] then Inr file
      else Inr (take (nat pos) file @ replicate (nat pos - length file) 0
                @ bs @ drop (nat pos + length bs) file))"

text \<open>
  The state of the loop in \<open>_apply_modifications\<close> (lines 530-557): the file, the
  working copy \<open>modified_fat\<close> and the cursor \<open>current_rom_end\<close>. One round of the loop
  for the modification \<open>m\<close>; the progress callback is called before it by the loop.
\<close>

type_synonym apply_state = "byte list \<times> FATEntry list \<times> int"

definition apply_mod :: "ModificationRecord \<Rightarrow> apply_state \<Rightarrow> py_error + apply_state" where
  "apply_mod m st =
     (case st of (rom, modified_fat, current_rom_end) \<Rightarrow>
        let idx = fat_index m in
        if idx < 0 \<or> idx \<ge> int (length modified_fat) then Inr (rom, modified_fat, current_rom_end)
        else
          let old_entry = modified_fat ! nat idx;
              old_size = entry_size old_entry;
              new_size = mod_size m
          in
            if new_size \<le> old_size then
              bind_err (seek_write (start_addr old_entry) (new_data m) rom) (\<lambda>rom'.
                Inr (rom',
                     modified_fat[nat idx := \<lparr>start_addr = start_addr old_entry,
                                             end_addr = start_addr old_entry + new_size\<rparr>],
                     current_rom_end))
            else
              let aligned_end = align4 current_rom_end in
              bind_err (if aligned_end > current_rom_end
                        then seek_write current_rom_end
                               (replicate (nat (aligned_end - current_rom_end)) 255) rom
                        else Inr rom) (\<lambda>rom1.
              bind_err (seek_write aligned_end (new_data m) rom1) (\<lambda>rom2.
                Inr (rom2,
                     modified_fat[nat idx := \<lparr>start_addr = aligned_end,
                                             end_addr = aligned_end + new_size\<rparr>],
                     aligned_end + new_size))))"

text \<open>
  The \<open>for i, mod in enumerate(mods)\<close> loop. The progress callback, when given, is
  called for every fifth index and may raise; it is modelled by its outcome at each
  index.
\<close>

fun apply_loop ::
  "(nat \<Rightarrow> py_error + unit) option \<Rightarrow> nat \<Rightarrow> ModificationRecord list \<Rightarrow> apply_state
     \<Rightarrow> py_error + apply_state" where
  "apply_loop cb i [] st = Inr st"
| "apply_loop cb i (m # ms) st =
     bind_err (case cb of
                 Some f \<Rightarrow> if i mod 5 = 0 then f i else Inr ()
               | None \<Rightarrow> Inr ()) (\<lambda>_.
     bind_err (apply_mod m st) (\<lambda>st'. apply_loop cb (i + 1) ms st'))"

text \<open>
  \<open>_apply_modifications\<close>: any exception inside the \<open>try\<close> gives \<open>None\<close>; otherwise the
  modified table is returned, with the file as it was left.
\<close>

definition apply_modifications ::
  "byte list \<Rightarrow> FATEntry list \<Rightarrow> ModificationRecord list \<Rightarrow> (nat \<Rightarrow> py_error + unit) option
     \<Rightarrow> (FATEntry list \<times> byte list) option" where
  "apply_modifications rom fat_entries mods cb =
     (case apply_loop cb 0 mods (rom, fat_entries, int (length rom)) of
        Inl e \<Rightarrow> None
      | Inr (rom', modified_fat, current_rom_end) \<Rightarrow> Some (modified_fat, rom'))"

text \<open>
  \<open>_write_fat\<close> (lines 565-577): serialise every entry, then write the table at
  \<open>header.fat_addr\<close>. The Boolean result is \<open>None\<close> for False.
\<close>

fun fat_raw :: "FATEntry list \<Rightarrow> py_error + byte list" where
  "fat_raw [] = Inr []"
| "fat_raw (e # es) =
     bind_err (FATEntry_to_bytes e) (\<lambda>b. bind_err (fat_raw es) (\<lambda>bs. Inr (b @ bs)))"

definition write_fat :: "byte list \<Rightarrow> int \<Rightarrow> FATEntry list \<Rightarrow> byte list option" where
  "write_fat rom fat_addr fat_entries =
     (case bind_err (fat_raw fat_entries) (\<lambda>raw. seek_write fat_addr raw rom) of
        Inl e \<Rightarrow> None
      | Inr rom' \<Rightarrow> Some rom')"

text \<open>
  \<open>_load_fat\<close> (lines 513-525): read \<open>fat_size\<close> bytes at \<open>fat_addr\<close> and parse every
  complete 8-byte group. \<open>seek(pos)\<close> followed by \<open>read(n)\<close>: a negative position
  raises OSError, the size \<open>-1\<close> reads to the end of the file and any smaller size
  raises ValueError.
\<close>

definition file_read :: "byte list \<Rightarrow> int \<Rightarrow> int \<Rightarrow> py_error + byte list" where
  "file_read file pos n =
     (if pos < 0 then Inl OSError
      else if n < - 1 then Inl ValueError
      else if n = - 1 then Inr (drop (nat pos) file)
      else Inr (take (nat n) (drop (nat pos) file)))"

function load_fat_loop :: "byte list \<Rightarrow> nat \<Rightarrow> py_error + FATEntry list" where
  "load_fat_loop raw i =
     (if i < length raw then
        (if i + 8 \<le> length raw then
           bind_err (FATEntry_from_bytes (slice raw i (i + 8))) (\<lambda>e.
           bind_err (load_fat_loop raw (i + 8)) (\<lambda>es. Inr (e # es)))
         else load_fat_loop raw (i + 8))
      else Inr [])"
  by pat_completeness auto
termination
  by (relation "measure (\<lambda>(raw, i). length raw - i)") auto

declare load_fat_loop.simps [simp del]

definition load_fat :: "byte list \<Rightarrow> int \<Rightarrow> int \<Rightarrow> FATEntry list option" where
  "load_fat rom fat_addr fat_size =
     (case bind_err (file_read rom fat_addr fat_size) (\<lambda>raw. load_fat_loop raw 0) of
        Inl e \<Rightarrow> None
      | Inr entries \<Rightarrow> Some entries)"

section \<open>saverom.py: the ROM header\<close>

text \<open>
  Unsigned little-endian fields of \<open>struct\<close>: \<open>le_bytes n v\<close> are the \<open>n\<close> bytes of
  \<open>v\<close>, \<open>le_value\<close> the value of a byte string. \<open>struct.unpack_from\<close> raises
  struct.error when the buffer is too short; \<open>struct.pack_into\<close> also when the value
  does not fit the field.
\<close>

fun le_bytes :: "nat \<Rightarrow> int \<Rightarrow> byte list" where
  "le_bytes 0 v = []"
| "le_bytes (Suc n) v = word_of_int v # le_bytes n (drop_bit 8 v)"

fun le_value :: "byte list \<Rightarrow> int" where
  "le_value [] = 0"
| "le_value (b # bs) = uint b + push_bit 8 (le_value bs)"

definition unpack_from :: "nat \<Rightarrow> byte list \<Rightarrow> nat \<Rightarrow> py_error + int" where
  "unpack_from n data off =
     (if off + n \<le> length data then Inr (le_value (slice data off (off + n)))
      else Inl StructError)"

definition pack_into :: "nat \<Rightarrow> byte list \<Rightarrow> nat \<Rightarrow> int \<Rightarrow> py_error + byte list" where
  "pack_into n data off v =
     (if 0 \<le> v \<and> v < 2 ^ (8 * n) \<and> off + n \<le> length data
      then Inr (take off data @ le_bytes n v @ drop (off + n) data)
      else Inl StructError)"

record NDSHeader =
  game_title :: "byte list"
  game_code :: "byte list"
  maker_code :: "byte list"
  unit_code :: int
  device_type :: int
  device_size :: int
  reserved1 :: "byte list"
  rom_version :: int
  flags :: int
  arm9_rom_addr :: int
  arm9_entry_addr :: int
  arm9_ram_addr :: int
  arm9_size :: int
  arm7_rom_addr :: int
  arm7_entry_addr :: int
  arm7_ram_addr :: int
  arm7_size :: int
  filename_table_addr :: int
  filename_size :: int
  fat_addr :: int
  fat_size :: int
  arm9_overlay_addr :: int
  arm9_overlay_size :: int
  arm7_overlay_addr :: int
  arm7_overlay_size :: int
  normal_commands_settings :: int
  key1_commands_settings :: int
  icon_title_addr :: int
  secure_area_crc16 :: int
  secure_area_loading_timeout :: int
  arm9_autoload_list_ram_addr :: int
  arm7_autoload_list_ram_addr :: int
  secure_area_disable :: int
  rom_size :: int
  header_size :: int
  reserved2 :: "byte list"
  nintendo_logo :: "byte list"
  nintendo_logo_crc :: int
  header_crc16 :: int
  debug_rom_addr :: int
  debug_size :: int
  debug_ram_addr :: int
  reserved3 :: "byte list"
  reserved4 :: "byte list"

text \<open>The dataclass defaults (lines 17-60): what \<open>cls()\<close> builds.\<close>

definition NDSHeader_default :: NDSHeader where
  "NDSHeader_default =
     \<lparr>game_title = replicate 12 0,
      game_code = replicate 4 0,
      maker_code = replicate 2 0,
      unit_code = 0,
      device_type = 0,
      device_size = 0,
      reserved1 = replicate 9 0,
      rom_version = 0,
      flags = 0,
      arm9_rom_addr = 0,
      arm9_entry_addr = 0,
      arm9_ram_addr = 0,
      arm9_size = 0,
      arm7_rom_addr = 0,
      arm7_entry_addr = 0,
      arm7_ram_addr = 0,
      arm7_size = 0,
      filename_table_addr = 0,
      filename_size = 0,
      fat_addr = 0,
      fat_size = 0,
      arm9_overlay_addr = 0,
      arm9_overlay_size = 0,
      arm7_overlay_addr = 0,
      arm7_overlay_size = 0,
      normal_commands_settings = 0,
      key1_commands_settings = 0,
      icon_title_addr = 0,
      secure_area_crc16 = 0,
      secure_area_loading_timeout = 0,
      arm9_autoload_list_ram_addr = 0,
      arm7_autoload_list_ram_addr = 0,
      secure_area_disable = 0,
      rom_size = 0,
      header_size = 0,
      reserved2 = replicate 56 0,
      nintendo_logo = replicate 156 0,
      nintendo_logo_crc = 0,
      header_crc16 = 0,
      debug_rom_addr = 0,
      debug_size = 0,
      debug_ram_addr = 0,
      reserved3 = replicate 4 0,
      reserved4 = replicate 144 0\<rparr>"

text \<open>
  \<open>from_bytes\<close> (lines 62-111) assigns the fields one statement after the other. A
  statement is a slice \<open>data[a:b]\<close>, a single byte \<open>data[i]\<close> or a
  \<open>struct.unpack_from\<close> of 2, 4 or 8 bytes, stored into one field.
\<close>

datatype read_step =
    ReadSlice "(byte list \<Rightarrow> byte list) \<Rightarrow> NDSHeader \<Rightarrow> NDSHeader" nat nat
  | ReadByte "(int \<Rightarrow> int) \<Rightarrow> NDSHeader \<Rightarrow> NDSHeader" nat
  | UnpackFrom "(int \<Rightarrow> int) \<Rightarrow> NDSHeader \<Rightarrow> NDSHeader" nat nat

fun run_read :: "byte list \<Rightarrow> read_step \<Rightarrow> NDSHeader \<Rightarrow> py_error + NDSHeader" where
  "run_read data (ReadSlice upd a e) h = Inr (upd (\<lambda>_. slice data a e) h)"
| "run_read data (ReadByte upd i) h =
     bind_err (get data i) (\<lambda>x. Inr (upd (\<lambda>_. uint x) h))"
| "run_read data (UnpackFrom upd n off) h =
     bind_err (unpack_from n data off) (\<lambda>v. Inr (upd (\<lambda>_. v) h))"

fun run_reads :: "byte list \<Rightarrow> read_step list \<Rightarrow> NDSHeader \<Rightarrow> py_error + NDSHeader" where
  "run_reads data [] h = Inr h"
| "run_reads data (s # ss) h = bind_err (run_read data s h) (run_reads data ss)"

definition from_bytes_steps :: "read_step list" where
  "from_bytes_steps =
     [ReadSlice game_title_update 0 12,
      ReadSlice game_code_update 12 16,
      ReadSlice maker_code_update 16 18,
      ReadByte unit_code_update 18,
      ReadByte device_type_update 19,
      ReadByte device_size_update 20,
      ReadSlice reserved1_update 21 30,
      ReadByte rom_version_update 30,
      ReadByte flags_update 31,
      UnpackFrom arm9_rom_addr_update 4 32,
      UnpackFrom arm9_entry_addr_update 4 36,
      UnpackFrom arm9_ram_addr_update 4 40,
      UnpackFrom arm9_size_update 4 44,
      UnpackFrom arm7_rom_addr_update 4 48,
      UnpackFrom arm7_entry_addr_update 4 52,
      UnpackFrom arm7_ram_addr_update 4 56,
      UnpackFrom arm7_size_update 4 60,
      UnpackFrom filename_table_addr_update 4 64,
      UnpackFrom filename_size_update 4 68,
      UnpackFrom fat_addr_update 4 72,
      UnpackFrom fat_size_update 4 76,
      UnpackFrom arm9_overlay_addr_update 4 80,
      UnpackFrom arm9_overlay_size_update 4 84,
      UnpackFrom arm7_overlay_addr_update 4 88,
      UnpackFrom arm7_overlay_size_update 4 92,
      UnpackFrom normal_commands_settings_update 4 96,
      UnpackFrom key1_commands_settings_update 4 100,
      UnpackFrom icon_title_addr_update 4 104,
      UnpackFrom secure_area_crc16_update 2 108,
      UnpackFrom secure_area_loading_timeout_update 2 110,
      UnpackFrom arm9_autoload_list_ram_addr_update 4 112,
      UnpackFrom arm7_autoload_list_ram_addr_update 4 116,
      UnpackFrom secure_area_disable_update 8 120,
      UnpackFrom rom_size_update 4 128,
      UnpackFrom header_size_update 4 132,
      ReadSlice reserved2_update 136 192,
      ReadSlice nintendo_logo_update 192 348,
      UnpackFrom nintendo_logo_crc_update 2 348,
      UnpackFrom header_crc16_update 2 350,
      UnpackFrom debug_rom_addr_update 4 352,
      UnpackFrom debug_size_update 4 356,
      UnpackFrom debug_ram_addr_update 4 360,
      ReadSlice reserved3_update 364 368,
      ReadSlice reserved4_update 368 512]"

definition from_bytes :: "byte list \<Rightarrow> py_error + NDSHeader" where
  "from_bytes data =
     (if length data < 512 then Inl ValueError
      else run_reads data from_bytes_steps NDSHeader_default)"

text \<open>
  \<open>to_bytes\<close> (lines 113-159) fills \<open>bytearray(512)\<close> one statement after the other:
  a slice assignment \<open>data[a:b] = v\<close> (which replaces the slice, whatever the length of
  \<open>v\<close>), an item assignment \<open>data[i] = v\<close> (IndexError out of range, ValueError
  unless \<open>0 <= v < 256\<close>) or a \<open>struct.pack_into\<close>.
\<close>

datatype write_step =
    SliceAssign nat nat "byte list"
  | SetByte nat int
  | PackInto nat nat int

fun run_write :: "write_step \<Rightarrow> byte list \<Rightarrow> py_error + byte list" where
  "run_write (SliceAssign a e v) data = Inr (take a data @ v @ drop (max a e) data)"
| "run_write (SetByte i v) data =
     (if i \<ge> length data then Inl IndexError
      else if v < 0 \<or> v \<ge> 256 then Inl ValueError
      else Inr (data[i := word_of_int v]))"
| "run_write (PackInto n off v) data = pack_into n data off v"

fun run_writes :: "write_step list \<Rightarrow> byte list \<Rightarrow> py_error + byte list" where
  "run_writes [] data = Inr data"
| "run_writes (s # ss) data = bind_err (run_write s data) (run_writes ss)"

definition to_bytes_steps :: "NDSHeader \<Rightarrow> write_step list" where
  "to_bytes_steps h =
     [SliceAssign 0 12 (game_title h),
      SliceAssign 12 16 (game_code h),
      SliceAssign 16 18 (maker_code h),
      SetByte 18 (unit_code h),
      SetByte 19 (device_type h),
      SetByte 20 (device_size h),
      SliceAssign 21 30 (reserved1 h),
      SetByte 30 (rom_version h),
      SetByte 31 (flags h),
      PackInto 4 32 (arm9_rom_addr h),
      PackInto 4 36 (arm9_entry_addr h),
      PackInto 4 40 (arm9_ram_addr h),
      PackInto 4 44 (arm9_size h),
      PackInto 4 48 (arm7_rom_addr h),
      PackInto 4 52 (arm7_entry_addr h),
      PackInto 4 56 (arm7_ram_addr h),
      PackInto 4 60 (arm7_size h),
      PackInto 4 64 (filename_table_addr h),
      PackInto 4 68 (filename_size h),
      PackInto 4 72 (fat_addr h),
      PackInto 4 76 (fat_size h),
      PackInto 4 80 (arm9_overlay_addr h),
      PackInto 4 84 (arm9_overlay_size h),
      PackInto 4 88 (arm7_overlay_addr h),
      PackInto 4 92 (arm7_overlay_size h),
      PackInto 4 96 (normal_commands_settings h),
      PackInto 4 100 (key1_commands_settings h),
      PackInto 4 104 (icon_title_addr h),
      PackInto 2 108 (secure_area_crc16 h),
      PackInto 2 110 (secure_area_loading_timeout h),
      PackInto 4 112 (arm9_autoload_list_ram_addr h),
      PackInto 4 116 (arm7_autoload_list_ram_addr h),
      PackInto 8 120 (secure_area_disable h),
      PackInto 4 128 (rom_size h),
      PackInto 4 132 (header_size h),
      SliceAssign 136 192 (reserved2 h),
      SliceAssign 192 348 (nintendo_logo h),
      PackInto 2 348 (nintendo_logo_crc h),
      PackInto 2 350 (header_crc16 h),
      PackInto 4 352 (debug_rom_addr h),
      PackInto 4 356 (debug_size h),
      PackInto 4 360 (debug_ram_addr h),
      SliceAssign 364 368 (reserved3 h),
      SliceAssign 368 512 (reserved4 h)]"

definition to_bytes :: "NDSHeader \<Rightarrow> py_error + byte list" where
  "to_bytes h = run_writes (to_bytes_steps h) (replicate 512 0)"

text \<open>
  For the proofs: the header that \<open>from_bytes\<close> builds from at least 512 bytes, and the
  layout of a list of write statements (where each one starts and ends, whether it writes
  what the bytes \<open>d\<close> hold there, whether the statements follow each other without gaps).
\<close>

definition parsed :: "byte list \<Rightarrow> NDSHeader" where
  "parsed b = \<lparr>game_title = slice b 0 12,
      game_code = slice b 12 16,
      maker_code = slice b 16 18,
      unit_code = uint (b ! 18),
      device_type = uint (b ! 19),
      device_size = uint (b ! 20),
      reserved1 = slice b 21 30,
      rom_version = uint (b ! 30),
      flags = uint (b ! 31),
      arm9_rom_addr = le_value (slice b 32 36),
      arm9_entry_addr = le_value (slice b 36 40),
      arm9_ram_addr = le_value (slice b 40 44),
      arm9_size = le_value (slice b 44 48),
      arm7_rom_addr = le_value (slice b 48 52),
      arm7_entry_addr = le_value (slice b 52 56),
      arm7_ram_addr = le_value (slice b 56 60),
      arm7_size = le_value (slice b 60 64),
      filename_table_addr = le_value (slice b 64 68),
      filename_size = le_value (slice b 68 72),
      fat_addr = le_value (slice b 72 76),
      fat_size = le_value (slice b 76 80),
      arm9_overlay_addr = le_value (slice b 80 84),
      arm9_overlay_size = le_value (slice b 84 88),
      arm7_overlay_addr = le_value (slice b 88 92),
      arm7_overlay_size = le_value (slice b 92 96),
      normal_commands_settings = le_value (slice b 96 100),
      key1_commands_settings = le_value (slice b 100 104),
      icon_title_addr = le_value (slice b 104 108),
      secure_area_crc16 = le_value (slice b 108 110),
      secure_area_loading_timeout = le_value (slice b 110 112),
      arm9_autoload_list_ram_addr = le_value (slice b 112 116),
      arm7_autoload_list_ram_addr = le_value (slice b 116 120),
      secure_area_disable = le_value (slice b 120 128),
      rom_size = le_value (slice b 128 132),
      header_size = le_value (slice b 132 136),
      reserved2 = slice b 136 192,
      nintendo_logo = slice b 192 348,
      nintendo_logo_crc = le_value (slice b 348 350),
      header_crc16 = le_value (slice b 350 352),
      debug_rom_addr = le_value (slice b 352 356),
      debug_size = le_value (slice b 356 360),
      debug_ram_addr = le_value (slice b 360 364),
      reserved3 = slice b 364 368,
      reserved4 = slice b 368 512\<rparr>"

fun step_start :: "write_step \<Rightarrow> nat" where
  "step_start (SliceAssign a e v) = a"
| "step_start (SetByte i v) = i"
| "step_start (PackInto n off v) = off"

fun step_end :: "write_step \<Rightarrow> nat" where
  "step_end (SliceAssign a e v) = e"
| "step_end (SetByte i v) = i + 1"
| "step_end (PackInto n off v) = off + n"

fun step_ok :: "byte list \<Rightarrow> write_step \<Rightarrow> bool" where
  "step_ok d (SliceAssign a e v) = (a \<le> e \<and> e \<le> length d \<and> v = slice d a e)"
| "step_ok d (SetByte i v) = (i < length d \<and> v = uint (d ! i))"
| "step_ok d (PackInto n off v) = (off + n \<le> length d \<and> v = le_value (slice d off (off + n)))"

fun tiled :: "nat \<Rightarrow> write_step list \<Rightarrow> nat \<Rightarrow> bool" where
  "tiled a [] e = (a = e)"
| "tiled a (s # ss) e = (step_start s = a \<and> tiled (step_end s) ss e)"

section \<open>narcutil.py: the archive container\<close>

text \<open>
  \<open>u32\<close> (line 7) reads four bytes at its offset and joins them with shifts and \<open>|\<close>; a
  read past the end raises IndexError.
\<close>

definition u32 :: "byte list \<Rightarrow> nat \<Rightarrow> py_error + nat" where
  "u32 b ofs =
     bind_err (get b ofs) (\<lambda>b0.
     bind_err (get b (ofs + 1)) (\<lambda>b1.
     bind_err (get b (ofs + 2)) (\<lambda>b2.
     bind_err (get b (ofs + 3)) (\<lambda>b3.
       Inr (((unat b0 OR push_bit 8 (unat b1)) OR push_bit 16 (unat b2))
              OR push_bit 24 (unat b3))))))"

text \<open>The section tags \<open>b'NARC'\<close>, \<open>b'BTAF'\<close>, \<open>b'BTNF'\<close> and \<open>b'GMIF'\<close>.\<close>

definition NARC :: "byte list" where "NARC = [78, 65, 82, 67]"
definition BTAF :: "byte list" where "BTAF = [66, 84, 65, 70]"
definition BTNF :: "byte list" where "BTNF = [66, 84, 78, 70]"
definition GMIF :: "byte list" where "GMIF = [71, 77, 73, 70]"

text \<open>The loop of \<open>parse_narc\<close> that reads \<open>count\<close> entries (lines 20-23).\<close>

fun read_entries :: "byte list \<Rightarrow> nat \<Rightarrow> nat \<Rightarrow> nat \<Rightarrow> py_error + (nat \<times> nat) list" where
  "read_entries blob entries_off i 0 = Inr []"
| "read_entries blob entries_off i (Suc k) =
     bind_err (u32 blob (entries_off + i * 8)) (\<lambda>s.
     bind_err (u32 blob (entries_off + i * 8 + 4)) (\<lambda>e.
     bind_err (read_entries blob entries_off (i + 1) k) (\<lambda>es. Inr ((s, e) # es))))"

definition parse_narc :: "byte list \<Rightarrow> py_error + byte list list" where
  "parse_narc blob =
     (if slice blob 0 4 \<noteq> NARC then Inl ValueError
      else
        let off = 16 in
        if slice blob off (off + 4) \<noteq> BTAF then Inl ValueError
        else
          bind_err (u32 blob (off + 4)) (\<lambda>btaf_size.
          bind_err (u32 blob (off + 8)) (\<lambda>count.
          let entries_off = off + 12 in
          bind_err (read_entries blob entries_off 0 count) (\<lambda>entries.
          let fntb_off = off + btaf_size in
          if slice blob fntb_off (fntb_off + 4) \<noteq> BTNF then Inl ValueError
          else
            bind_err (u32 blob (fntb_off + 4)) (\<lambda>fntb_size.
            let fimg_off = fntb_off + fntb_size in
            if slice blob fimg_off (fimg_off + 4) \<noteq> GMIF then Inl ValueError
            else
              let base = fimg_off + 8 in
              Inr (map (\<lambda>(s, e). slice blob (base + s) (base + e)) entries))))))"

text \<open>
  \<open>build_narc\<close>. Its local helper \<open>pad4\<close> (lines 42-44), and \<open>struct.pack('<H', v)\<close>.
\<close>

definition pad4 :: "byte list \<Rightarrow> byte list" where
  "pad4 data = (let padding = nat ((- int (length data)) AND 3) in data @ replicate padding 0)"

definition pack_u16 :: "int \<Rightarrow> py_error + byte list" where
  "pack_u16 v =
     (if 0 \<le> v \<and> v < 2 ^ 16 then Inr [word_of_int v, word_of_int (drop_bit 8 v)]
      else Inl StructError)"

text \<open>
  The first loop (lines 47-52) appends each file to \<open>gmif_data\<close>, records where it
  starts, and pads the pool to a multiple of four bytes.
\<close>

fun gmif_loop :: "byte list list \<Rightarrow> byte list \<Rightarrow> nat list \<Rightarrow> byte list \<times> nat list" where
  "gmif_loop [] gmif_data file_offsets = (gmif_data, file_offsets)"
| "gmif_loop (file_data # files) gmif_data file_offsets =
     (let file_offsets' = file_offsets @ [length gmif_data];
          gmif_data' = gmif_data @ file_data;
          padding = nat ((- int (length gmif_data')) AND 3)
      in gmif_loop files
           (if padding \<noteq> 0 then gmif_data' @ replicate padding 0 else gmif_data')
           file_offsets')"

text \<open>
  The second loop (lines 58-61) packs, for each file, \<open>file_offsets[i]\<close> and
  \<open>file_offsets[i + 1]\<close>.
\<close>

fun btaf_loop :: "nat list \<Rightarrow> nat \<Rightarrow> nat \<Rightarrow> py_error + byte list" where
  "btaf_loop file_offsets i 0 = Inr []"
| "btaf_loop file_offsets i (Suc k) =
     bind_err (get file_offsets i) (\<lambda>start_offset.
     bind_err (get file_offsets (i + 1)) (\<lambda>end_offset.
     bind_err (pack_u32 (int start_offset)) (\<lambda>a.
     bind_err (pack_u32 (int end_offset)) (\<lambda>b.
     bind_err (btaf_loop file_offsets (i + 1) k) (\<lambda>rest. Inr (a @ b @ rest))))))"

definition build_narc :: "byte list list \<Rightarrow> py_error + byte list" where
  "build_narc files =
     (case gmif_loop files [] [] of (gmif_data, file_offsets0) \<Rightarrow>
        let file_offsets = file_offsets0 @ [length gmif_data];
            gmif_size = 8 + int (length gmif_data)
        in
        bind_err (pack_u32 gmif_size) (\<lambda>gs.
        let gmif_section = GMIF @ gs @ gmif_data;
            file_count = length files
        in
        bind_err (btaf_loop file_offsets 0 file_count) (\<lambda>btaf_entries.
        let btaf_size = align4 (12 + int (length btaf_entries));
            btaf_padding = btaf_size - (12 + int (length btaf_entries))
        in
        bind_err (pack_u32 btaf_size) (\<lambda>bs.
        bind_err (pack_u32 (int file_count)) (\<lambda>fc.
        let btaf_section = BTAF @ bs @ fc @ btaf_entries @ replicate (nat btaf_padding) 0;
            btnf_size = 16
        in
        bind_err (pack_u32 btnf_size) (\<lambda>bn.
        let btnf_section = BTNF @ bn @ replicate 8 0;
            total_size = 16 + int (length btaf_section) + int (length btnf_section)
                           + int (length gmif_section)
        in
        bind_err (pack_u32 total_size) (\<lambda>ts.
        bind_err (pack_u16 16) (\<lambda>h1.
        bind_err (pack_u16 3) (\<lambda>h2.
          let header = NARC @ [254, 255] @ [0, 1] @ ts @ h1 @ h2
          in Inr (header @ btaf_section @ btnf_section @ gmif_section))))))))))"

text \<open>
  For the proofs: where each file starts in the pool when every file is followed by its
  padding.
\<close>

fun starts :: "nat \<Rightarrow> byte list list \<Rightarrow> nat list" where
  "starts n [] = []"
| "starts n (f # fs) = n # starts (n + length (pad4 f)) fs"

section \<open>saverom.py: the header checksum and the save operation\<close>

















subsection \<open>The decoder's loops always return\<close>

lemma copy_loop_total: "\<exists>out'. copy_loop k cp out = Inr out'"
  by (induction k arbitrary: cp out) (auto simp: bind_err_def get_def)

lemma bit_loop_total: "\<exists>r. bit_loop data dst_size flg bitn src_i out = Inr r"
proof (induction data dst_size flg bitn src_i out rule: bit_loop.induct)
  case (1 data dst_size flg bitn src_i out)
  show ?case
  proof (cases "bitn \<ge> 8 \<or> length out \<ge> dst_size \<or> src_i \<ge> length data")
    case True
    then show ?thesis by (subst bit_loop.simps) auto
  next
    case stop: False
    show ?thesis
    proof (cases "flg AND drop_bit bitn 128 = 0")
      case True
      with stop "1.IH"(1) [of "data ! src_i"] show ?thesis
        by (subst bit_loop.simps) (auto simp: bind_err_def get_def)
    next
      case bitset: False
      show ?thesis
      proof (cases "src_i + 1 \<ge> length data")
        case True
        with stop bitset show ?thesis by (subst bit_loop.simps) auto
      next
        case False
        obtain out' where c: "copy_loop (drop_bit 4 (unat (data ! src_i)) + 3)
            (int (length out)
              - (int (push_bit 8 (unat (data ! src_i) AND 15) OR unat (data ! (src_i + 1))) + 1))
            out = Inr out'"
          using copy_loop_total by blast
        from stop bitset False c "1.IH"(2) show ?thesis
          by (subst bit_loop.simps) (auto simp: bind_err_def get_def Let_def)
      qed
    qed
  qed
qed

lemma outer_loop_total: "\<exists>r. outer_loop data dst_size src_i out = Inr r"
proof (induction data dst_size src_i out rule: outer_loop.induct)
  case (1 data dst_size src_i out)
  show ?case
  proof (cases "length out < dst_size \<and> src_i < length data")
    case False
    then show ?thesis by (subst outer_loop.simps) auto
  next
    case True
    obtain s o' where b:
      "bit_loop data dst_size (unat (data ! src_i)) 0 (src_i + 1) out = Inr (s, o')"
      using bit_loop_total by (metis surj_pair)
    from True b "1.IH" [of "data ! src_i" "(s, o')" s o'] show ?thesis
      by (subst outer_loop.simps) (auto simp: get_def)
  qed
qed

text \<open>
  The \<open>while\<close> loop only stops once the output has reached the declared length or the
  read position has reached the end of the input.
\<close>

lemma outer_loop_exit:
  "outer_loop data dst_size src_i out = Inr (s, out')
     \<Longrightarrow> dst_size \<le> length out' \<or> length data \<le> s"
proof (induction data dst_size src_i out rule: outer_loop.induct)
  case (1 data dst_size src_i out)
  show ?case
  proof (cases "length out < dst_size \<and> src_i < length data")
    case False
    with "1.prems" show ?thesis
      by (subst (asm) outer_loop.simps) auto
  next
    case True
    with "1.prems" obtain s1 o1 where
      b: "bit_loop data dst_size (unat (data ! src_i)) 0 (src_i + 1) out = Inr (s1, o1)"
      and r: "outer_loop data dst_size s1 o1 = Inr (s, out')"
      by (subst (asm) outer_loop.simps) (auto simp: get_def split: sum.splits)
    from True b r "1.IH" [of "data ! src_i" "(s1, o1)" s1 o1] show ?thesis
      by (simp add: get_def)
  qed
qed

subsection \<open>The declared length\<close>

lemma or_push_bit_add_nat:
  assumes "a < 2 ^ n"
  shows "(a::nat) OR push_bit n b = a + push_bit n b"
proof -
  have "take_bit n a AND push_bit n b = 0"
    by (auto simp: bit_eq_iff bit_simps)
  moreover have "take_bit n a = a"
    using assms by (simp add: take_bit_nat_eq_self)
  ultimately show ?thesis by (simp add: disjunctive_add_eq_or)
qed

lemma unat_byte_lt: "unat (b :: byte) < 256"
  using unsigned_less [of b, where ?'a = nat] by simp

lemma u24_value:
  "(unat (d1::byte) OR push_bit 8 (unat (d2::byte))) OR push_bit 16 (unat (d3::byte))
     = unat d1 + 256 * unat d2 + 65536 * unat d3"
proof -
  have a: "unat d1 OR push_bit 8 (unat d2) = unat d1 + push_bit 8 (unat d2)"
    using unat_byte_lt [of d1] by (intro or_push_bit_add_nat) simp
  have "unat d1 + push_bit 8 (unat d2) < 2 ^ 16"
    using unat_byte_lt [of d1] unat_byte_lt [of d2] by (simp add: push_bit_eq_mult)
  then have "(unat d1 + push_bit 8 (unat d2)) OR push_bit 16 (unat d3)
      = (unat d1 + push_bit 8 (unat d2)) + push_bit 16 (unat d3)"
    by (rule or_push_bit_add_nat)
  with a show ?thesis by (simp add: push_bit_eq_mult)
qed

lemma decompress_lz10_tagged:
  assumes "4 \<le> length data" and "data ! 0 = 16"
  shows "\<exists>s raw.
       outer_loop data (unat (data ! 1) + 256 * unat (data ! 2) + 65536 * unat (data ! 3)) 4 []
         = Inr (s, raw)
     \<and> decompress_lz10 data
         = Inr (take (unat (data ! 1) + 256 * unat (data ! 2) + 65536 * unat (data ! 3)) raw)"
proof -
  obtain s raw where r:
    "outer_loop data (unat (data ! 1) + 256 * unat (data ! 2) + 65536 * unat (data ! 3)) 4 []
       = Inr (s, raw)"
    using outer_loop_total by (metis surj_pair)
  from assms have "data \<noteq> []" by auto
  with assms r show ?thesis
    by (simp add: decompress_lz10_def bind_err_def get_def u24_value)
qed

subsection \<open>Alignment\<close>

lemma and_not_3: "(x::int) AND NOT 3 = 4 * (x div 4)"
proof -
  have s: "Suc (Suc (n - 2)) = n" if "\<not> n < 2" for n :: nat
    using that by simp
  have "x AND NOT (mask 2) = push_bit 2 (drop_bit 2 x)"
    by (auto simp: bit_eq_iff bit_simps s not_less [symmetric])
  then show ?thesis by (simp add: mask_eq_exp_minus_1 push_bit_eq_mult drop_bit_eq_div)
qed

lemma align4_eq: "align4 v = 4 * ((v + 3) div 4)"
  using and_not_3 [of "v + 3"] by (simp add: align4_def)

lemma align4_least:
  "align4 v mod 4 = 0 \<and> v \<le> align4 v \<and> (\<forall>B. B mod 4 = 0 \<and> v \<le> B \<longrightarrow> align4 v \<le> B)"
  unfolding align4_eq by (auto; presburger)

lemma align4_nonneg: "0 \<le> v \<Longrightarrow> 0 \<le> align4 v"
  unfolding align4_eq by simp

subsection \<open>The allocation table under the modification loop\<close>

lemma apply_mod_length:
  "apply_mod m (rom, fat, cur) = Inr (rom', fat', cur') \<Longrightarrow> length fat' = length fat"
  by (auto simp: apply_mod_def Let_def bind_err_def split: if_splits sum.splits)

lemma apply_mod_other:
  "apply_mod m (rom, fat, cur) = Inr (rom', fat', cur') \<Longrightarrow> int i \<noteq> fat_index m
     \<Longrightarrow> fat' ! i = fat ! i"
  by (auto simp: apply_mod_def Let_def bind_err_def split: if_splits sum.splits)

lemma apply_loop_fat:
  "apply_loop cb i ms (rom, fat, cur) = Inr (rom', fat', cur') \<Longrightarrow>
     length fat' = length fat \<and> (\<forall>j. int j \<notin> fat_index ` set ms \<longrightarrow> fat' ! j = fat ! j)"
proof (induction ms arbitrary: i rom fat cur)
  case Nil
  then show ?case by simp
next
  case (Cons m ms)
  from Cons.prems obtain rom1 fat1 cur1 where
    s1: "apply_mod m (rom, fat, cur) = Inr (rom1, fat1, cur1)"
    and s2: "apply_loop cb (i + 1) ms (rom1, fat1, cur1) = Inr (rom', fat', cur')"
    by (auto simp: bind_err_def split: sum.splits)
  from Cons.IH [OF s2] apply_mod_length [OF s1] apply_mod_other [OF s1]
  show ?case by auto
qed

subsection \<open>Serialising and reading back allocation entries\<close>

lemma uint_byte_of_int: "uint (word_of_int v :: byte) = v mod 256"
  by (simp add: uint_word_of_int)

lemma le_bytes_sum:
  fixes v :: int
  assumes "0 \<le> v" and "v < 2 ^ 32"
  shows "v mod 256 + 2 ^ 8 * (v div 2 ^ 8 mod 256) + 2 ^ 16 * (v div 2 ^ 16 mod 256)
          + 2 ^ 24 * (v div 2 ^ 24 mod 256) = v"
proof -
  define a where "a = v div 256"
  define b where "b = a div 256"
  define c where "c = b div 256"
  have p: "(2::int) ^ 8 = 256" "(2::int) ^ 16 = 65536" "(2::int) ^ 24 = 16777216"
    by simp_all
  have va: "v mod 256 + 256 * a = v" by (simp add: a_def)
  have ab: "a mod 256 + 256 * b = a" by (simp add: b_def)
  have bc: "b mod 256 + 256 * c = b" by (simp add: c_def)
  have b2: "b = v div 65536" by (simp add: b_def a_def zdiv_zmult2_eq)
  have c2: "c = v div 16777216" by (simp add: c_def b2 zdiv_zmult2_eq)
  have "c < 256" using assms(2) unfolding c2 by (simp add: div_less_iff_less_mult)
  moreover have "0 \<le> c" using assms(1) unfolding c2 by simp
  ultimately have cm: "c mod 256 = c" by simp
  have "v mod 256 + 256 * (a mod 256) + 65536 * (b mod 256) + 16777216 * (c mod 256)
      = v mod 256 + 256 * (a mod 256 + 256 * (b mod 256 + 256 * c))"
    by (simp add: cm)
  also have "\<dots> = v" by (simp only: bc ab va)
  finally have f:
    "v mod 256 + 256 * (a mod 256) + 65536 * (b mod 256) + 16777216 * (c mod 256) = v" .
  have "v mod 256 + 256 * (v div 256 mod 256) + 65536 * (v div 65536 mod 256)
          + 16777216 * (v div 16777216 mod 256) = v"
    using f unfolding c2 b2 a_def .
  then show ?thesis unfolding p .
qed

lemma unpack_pack_u32:
  assumes "pack_u32 v = Inr b"
  shows "unpack_u32 b = Inr v"
proof -
  from assms have r: "0 \<le> v" "v < 2 ^ 32"
    and b: "b = [word_of_int v, word_of_int (drop_bit 8 v),
                word_of_int (drop_bit 16 v), word_of_int (drop_bit 24 v)]"
    by (auto simp: pack_u32_def split: if_splits)
  have e: "uint (word_of_int v :: byte) + 2 ^ 8 * uint (word_of_int (drop_bit 8 v) :: byte)
      + 2 ^ 16 * uint (word_of_int (drop_bit 16 v) :: byte)
      + 2 ^ 24 * uint (word_of_int (drop_bit 24 v) :: byte) = v"
    unfolding uint_byte_of_int drop_bit_eq_div by (rule le_bytes_sum [OF r])
  show ?thesis
    unfolding b unpack_u32_def list.case e ..
qed

lemma pack_u32_length: "pack_u32 v = Inr b \<Longrightarrow> length b = 4"
  by (auto simp: pack_u32_def split: if_splits)

lemma FATEntry_to_bytes_length: "FATEntry_to_bytes e = Inr b \<Longrightarrow> length b = 8"
  by (auto simp: FATEntry_to_bytes_def bind_err_def split: sum.splits dest!: pack_u32_length)

lemma FATEntry_from_to_bytes:
  assumes "FATEntry_to_bytes e = Inr b"
  shows "FATEntry_from_bytes b = Inr e"
proof -
  from assms obtain a c where a: "pack_u32 (start_addr e) = Inr a"
    and c: "pack_u32 (end_addr e) = Inr c" and b: "b = a @ c"
    by (auto simp: FATEntry_to_bytes_def bind_err_def split: sum.splits)
  have la: "length a = 4" and lc: "length c = 4"
    using a c by (auto dest: pack_u32_length)
  show ?thesis
    using la lc unpack_pack_u32 [OF a] unpack_pack_u32 [OF c]
    by (simp add: FATEntry_from_bytes_def b slice_def bind_err_def)
qed

lemma fat_raw_length: "fat_raw es = Inr raw \<Longrightarrow> length raw = 8 * length es"
proof (induction es arbitrary: raw)
  case Nil
  then show ?case by simp
next
  case (Cons e es)
  then show ?case
    by (auto simp: bind_err_def split: sum.splits dest!: FATEntry_to_bytes_length)
qed

lemma load_fat_loop_fat_raw:
  "fat_raw es = Inr raw \<Longrightarrow> length pre = i \<Longrightarrow> load_fat_loop (pre @ raw) i = Inr es"
proof (induction es arbitrary: raw pre i)
  case Nil
  then show ?case by (simp add: load_fat_loop.simps)
next
  case (Cons e es)
  from Cons.prems(1) obtain b bs where b: "FATEntry_to_bytes e = Inr b"
    and bs: "fat_raw es = Inr bs" and raw: "raw = b @ bs"
    by (auto simp: bind_err_def split: sum.splits)
  have lb: "length b = 8" using b by (rule FATEntry_to_bytes_length)
  have sl: "slice (pre @ b @ bs) i (i + 8) = b"
    using lb Cons.prems(2) by (simp add: slice_def)
  have rest: "load_fat_loop (pre @ b @ bs) (i + 8) = Inr es"
    using Cons.IH [OF bs, of "pre @ b" "i + 8"] lb Cons.prems(2) by simp
  show ?case
    unfolding raw
    by (subst load_fat_loop.simps)
       (simp add: lb Cons.prems(2) sl rest FATEntry_from_to_bytes [OF b] bind_err_def)
qed

lemma seek_write_read_back:
  assumes "seek_write pos bs file = Inr file'"
  shows "file_read file' pos (int (length bs)) = Inr bs"
proof (cases "bs = []")
  case True
  with assms show ?thesis
    by (auto simp: seek_write_def file_read_def split: if_splits)
next
  case False
  with assms have p: "0 \<le> pos"
    and f: "file' = (take (nat pos) file @ replicate (nat pos - length file) 0)
                      @ bs @ drop (nat pos + length bs) file"
    by (auto simp: seek_write_def split: if_splits)
  have l: "length (take (nat pos) file @ replicate (nat pos - length file) 0) = nat pos"
    by auto
  show ?thesis
    using p unfolding f file_read_def by (simp only: drop_append l) simp
qed

lemma write_fat_load_fat:
  assumes "write_fat rom addr fat = Some rom'"
  shows "load_fat rom' addr (8 * int (length fat)) = Some fat"
proof -
  from assms obtain raw where raw: "fat_raw fat = Inr raw"
    and w: "seek_write addr raw rom = Inr rom'"
    by (auto simp: write_fat_def bind_err_def split: sum.splits)
  have l: "int (length raw) = 8 * int (length fat)"
    using fat_raw_length [OF raw] by simp
  have "file_read rom' addr (8 * int (length fat)) = Inr raw"
    using seek_write_read_back [OF w] l by simp
  moreover have "load_fat_loop raw 0 = Inr fat"
    using load_fat_loop_fat_raw [OF raw, of "[]" 0] by simp
  ultimately show ?thesis by (simp add: load_fat_def bind_err_def)
qed

subsection \<open>The tracker's dictionary\<close>

lemma map_of_dict_set: "map_of (dict_set k v kvs) = (map_of kvs)(k \<mapsto> v)"
  by (induction kvs) auto

lemma length_dict_set:
  "length (dict_set k v kvs) = (if k \<in> fst ` set kvs then length kvs else Suc (length kvs))"
  by (induction kvs) (fastforce simp: image_iff)+


subsection \<open>The header's parse and serialise steps\<close>


lemma le_value_bounds: "0 \<le> le_value bs \<and> le_value bs < 2 ^ (8 * length bs)"
proof (induction bs)
  case Nil
  show ?case by simp
next
  case (Cons b bs)
  have b: "0 \<le> uint b" "uint b < 256"
    using uint_lt2p [of b] by simp_all
  from Cons.IH have "le_value bs + 1 \<le> 2 ^ (8 * length bs)" by simp
  then have "256 * (le_value bs + 1) \<le> 256 * 2 ^ (8 * length bs)" by simp
  then show ?case
    using b Cons.IH by (simp add: push_bit_eq_mult power_add)
qed

lemma byte_of_push_bit: "(word_of_int (push_bit 8 v) :: byte) = 0"
  by (rule bit_word_eqI) (simp add: bit_simps)

lemma drop_bit_uint_plus: "drop_bit 8 (uint (b::byte) + push_bit 8 v) = v"
proof -
  have b: "0 \<le> uint b" "uint b < 256"
    using uint_lt2p [of b] by simp_all
  then show ?thesis
    by (simp add: drop_bit_eq_div push_bit_eq_mult)
qed

lemma le_bytes_le_value: "le_bytes (length bs) (le_value bs) = bs"
  by (induction bs) (simp_all add: byte_of_push_bit drop_bit_uint_plus)

lemma splice_prefix:
  assumes "a \<le> e" "e \<le> length d" "length buf = length d" "take a buf = take a d"
  shows "length (take a buf @ slice d a e @ drop e buf) = length d"
    and "take e (take a buf @ slice d a e @ drop e buf) = take e d"
proof -
  have ls: "length (slice d a e) = e - a"
    using assms by (simp add: slice_def)
  show "length (take a buf @ slice d a e @ drop e buf) = length d"
    using assms ls by simp
  have "take a (take e d) @ drop a (take e d) = take e d"
    by (rule append_take_drop_id)
  then have "take a d @ slice d a e = take e d"
    using assms(1) by (simp add: slice_def min_def)
  then show "take e (take a buf @ slice d a e @ drop e buf) = take e d"
    using assms ls by simp
qed

lemma get_in_range: "i < length xs \<Longrightarrow> get xs i = Inr (xs ! i)"
  by (simp add: get_def)

lemma unpack_from_in_range:
  "off + n \<le> length data \<Longrightarrow> unpack_from n data off = Inr (le_value (slice data off (off + n)))"
  by (simp add: unpack_from_def)

lemma from_bytes_parsed:
  assumes "512 \<le> length b"
  shows "from_bytes b = Inr (parsed b)"
  using assms
  by (simp add: from_bytes_def from_bytes_steps_def NDSHeader_default_def parsed_def
      bind_err_def get_in_range unpack_from_in_range)

lemma run_write_ok:
  assumes ok: "step_ok d s" and len: "length buf = length d"
    and pre: "take (step_start s) buf = take (step_start s) d"
  shows "\<exists>buf'. run_write s buf = Inr buf' \<and> length buf' = length d
           \<and> take (step_end s) buf' = take (step_end s) d"
proof (cases s)
  case (SliceAssign a e v)
  with ok have h: "a \<le> e" "e \<le> length d" "v = slice d a e" by simp_all
  from splice_prefix [OF h(1) h(2) len] pre SliceAssign h show ?thesis
    by (simp add: max_def)
next
  case (SetByte i v)
  with ok have h: "i < length d" "v = uint (d ! i)" by simp_all
  have r: "0 \<le> uint (d ! i)" "uint (d ! i) < 256"
    using uint_lt2p [of "d ! i"] by simp_all
  have "take (Suc i) (buf[i := d ! i]) = take i buf @ [d ! i]"
    using h(1) len by (simp add: take_Suc_conv_app_nth)
  also have "\<dots> = take (Suc i) d"
    using pre SetByte h(1) by (simp add: take_Suc_conv_app_nth)
  finally show ?thesis
    using SetByte h r len by simp
next
  case (PackInto n off v)
  with ok have h: "off + n \<le> length d" "v = le_value (slice d off (off + n))" by simp_all
  have ls: "length (slice d off (off + n)) = n"
    using h(1) by (simp add: slice_def)
  have lb: "le_bytes n v = slice d off (off + n)"
    using le_bytes_le_value [of "slice d off (off + n)"] ls h(2) by simp
  have r: "0 \<le> v" "v < 2 ^ (8 * n)"
    using le_value_bounds [of "slice d off (off + n)"] ls h(2) by simp_all
  have o: "off \<le> off + n" by simp
  from splice_prefix [OF o h(1) len] pre PackInto h(1) lb r len show ?thesis
    by (simp add: pack_into_def)
qed

lemma run_writes_tiled:
  "tiled a ss e \<Longrightarrow> list_all (step_ok d) ss \<Longrightarrow> length buf = length d
     \<Longrightarrow> take a buf = take a d
     \<Longrightarrow> \<exists>buf'. run_writes ss buf = Inr buf' \<and> length buf' = length d
              \<and> take e buf' = take e d"
proof (induction ss arbitrary: a buf)
  case Nil
  then show ?case by simp
next
  case (Cons s ss)
  from Cons.prems have st: "step_start s = a" and t: "tiled (step_end s) ss e"
    and ok: "step_ok d s" and oks: "list_all (step_ok d) ss"
    by simp_all
  from run_write_ok [OF ok Cons.prems(3)] Cons.prems(4) st
  obtain buf1 where b1: "run_write s buf = Inr buf1" "length buf1 = length d"
    "take (step_end s) buf1 = take (step_end s) d"
    by auto
  from Cons.IH [OF t oks b1(2) b1(3)] b1(1) show ?case
    by (simp add: bind_err_def)
qed

lemma slice_take: "e \<le> n \<Longrightarrow> slice (take n xs) a e = slice xs a e"
  by (simp add: slice_def min_def)

lemma to_bytes_parsed:
  assumes "512 \<le> length b"
  shows "to_bytes (parsed b) = Inr (take 512 b)"
proof -
  let ?d = "take 512 b"
  have ld: "length ?d = 512" using assms by simp
  have t: "tiled 0 (to_bytes_steps (parsed b)) 512"
    by (simp add: to_bytes_steps_def parsed_def)
  have ok: "list_all (step_ok ?d) (to_bytes_steps (parsed b))"
    using assms by (simp add: to_bytes_steps_def parsed_def slice_take)
  from run_writes_tiled [OF t ok, of "replicate 512 0"] ld
  obtain buf' where r: "run_writes (to_bytes_steps (parsed b)) (replicate 512 0) = Inr buf'"
    and l: "length buf' = 512" and p: "take 512 buf' = take 512 ?d"
    by auto
  from l p have "buf' = ?d" by simp
  with r show ?thesis by (simp add: to_bytes_def)
qed

subsection \<open>The archive: padding, the pool and the entry table\<close>

lemma and_3_mod: "(x::int) AND 3 = x mod 4"
proof -
  have "x AND mask 2 = x mod 2 ^ 2"
    by (simp only: take_bit_eq_mask [symmetric] take_bit_eq_mod)
  then show ?thesis by (simp add: mask_eq_exp_minus_1)
qed

lemma padding_eq: "nat ((- int n) AND 3) = (4 - n mod 4) mod 4"
proof -
  have "(- int n) mod 4 = int ((4 - n mod 4) mod 4)"
    by (simp add: zmod_int) presburger
  then show ?thesis by (simp add: and_3_mod)
qed

lemma pad_arith: "((n::nat) + (4 - n mod 4) mod 4) mod 4 = 0"
proof -
  have e: "(n + (4 - n mod 4) mod 4) mod 4 = (n mod 4 + (4 - n mod 4) mod 4) mod 4"
    by (simp add: mod_add_left_eq)
  have "n mod 4 < 4" by simp
  then have "n mod 4 = 0 \<or> n mod 4 = 1 \<or> n mod 4 = 2 \<or> n mod 4 = 3" by linarith
  then have "(n mod 4 + (4 - n mod 4) mod 4) mod 4 = 0"
    by (elim disjE) simp_all
  with e show ?thesis by simp
qed

lemma length_pad4: "length (pad4 f) mod 4 = 0"
  unfolding pad4_def Let_def padding_eq using pad_arith [of "length f"] by simp

lemma pad4_aligned: "length f mod 4 = 0 \<Longrightarrow> pad4 f = f"
  unfolding pad4_def Let_def padding_eq by simp

lemma padding_append:
  assumes "length g mod 4 = 0"
  shows "nat ((- int (length (g @ f))) AND 3) = nat ((- int (length f)) AND 3)"
proof -
  have "(length g + length f) mod 4 = (length g mod 4 + length f) mod 4"
    by (simp only: mod_add_left_eq)
  also have "\<dots> = length f mod 4"
    using assms by simp
  finally show ?thesis
    unfolding padding_eq length_append by (simp only:)
qed

lemma gmif_loop_eq:
  "length g mod 4 = 0 \<Longrightarrow>
     gmif_loop fs g offs = (g @ concat (map pad4 fs), offs @ starts (length g) fs)"
proof (induction fs arbitrary: g offs)
  case Nil
  show ?case by simp
next
  case (Cons f fs)
  have p: "(if nat ((- int (length (g @ f))) AND 3) \<noteq> 0
            then (g @ f) @ replicate (nat ((- int (length (g @ f))) AND 3)) 0 else g @ f)
           = g @ pad4 f"
    using padding_append [OF Cons.prems, of f] by (simp add: pad4_def Let_def)
  have l: "length (g @ pad4 f) mod 4 = 0"
    using Cons.prems length_pad4 [of f] by (simp add: mod_add_eq [symmetric])
  have "gmif_loop (f # fs) g offs = gmif_loop fs (g @ pad4 f) (offs @ [length g])"
    unfolding gmif_loop.simps Let_def p ..
  also have "\<dots> = ((g @ pad4 f) @ concat (map pad4 fs),
                     (offs @ [length g]) @ starts (length (g @ pad4 f)) fs)"
    by (rule Cons.IH [OF l])
  finally show ?case by simp
qed

lemma u32_value:
  "((unat (d0::byte) OR push_bit 8 (unat (d1::byte))) OR push_bit 16 (unat (d2::byte)))
      OR push_bit 24 (unat (d3::byte))
     = unat d0 + 256 * unat d1 + 65536 * unat d2 + 16777216 * unat d3"
proof -
  have "unat d0 + 256 * unat d1 + 65536 * unat d2 < 2 ^ 24"
    using unat_byte_lt [of d0] unat_byte_lt [of d1] unat_byte_lt [of d2] by simp
  then have "(unat d0 + 256 * unat d1 + 65536 * unat d2) OR push_bit 24 (unat d3)
      = (unat d0 + 256 * unat d1 + 65536 * unat d2) + push_bit 24 (unat d3)"
    by (rule or_push_bit_add_nat)
  then show ?thesis
    unfolding u24_value by (simp add: push_bit_eq_mult)
qed

lemma u32_pack_u32:
  assumes "pack_u32 (int v) = Inr bs"
  shows "u32 (pre @ bs @ post) (length pre) = Inr v"
proof -
  from assms obtain b0 b1 b2 b3 where bs: "bs = [b0, b1, b2, b3]"
    by (auto simp: pack_u32_def split: if_splits)
  from unpack_pack_u32 [OF assms] have
    "uint b0 + 2 ^ 8 * uint b1 + 2 ^ 16 * uint b2 + 2 ^ 24 * uint b3 = int v"
    by (simp add: bs unpack_u32_def)
  then have "int (unat b0 + 256 * unat b1 + 65536 * unat b2 + 16777216 * unat b3) = int v"
    by simp
  then have v: "unat b0 + 256 * unat b1 + 65536 * unat b2 + 16777216 * unat b3 = v"
    by (simp only: int_int_eq)
  have g: "get (pre @ [b0, b1, b2, b3] @ post) (length pre) = Inr b0"
    "get (pre @ [b0, b1, b2, b3] @ post) (length pre + 1) = Inr b1"
    "get (pre @ [b0, b1, b2, b3] @ post) (length pre + 2) = Inr b2"
    "get (pre @ [b0, b1, b2, b3] @ post) (length pre + 3) = Inr b3"
    by (simp_all add: get_def nth_append)
  show ?thesis
    unfolding u32_def bs g bind_err_def sum.case u32_value v ..
qed

lemma pack_u32_ok:
  "0 \<le> v \<Longrightarrow> v < 2 ^ 32 \<Longrightarrow> \<exists>bs. pack_u32 v = Inr bs \<and> length bs = 4"
  by (simp add: pack_u32_def)

lemma starts_le: "x \<in> set (starts m fs) \<Longrightarrow> x \<le> m + length (concat (map pad4 fs))"
proof (induction fs arbitrary: m)
  case Nil
  then show ?case by simp
next
  case (Cons f fs)
  then show ?case by (auto dest!: Cons.IH)
qed

lemma length_starts: "length (starts m fs) = length fs"
  by (induction fs arbitrary: m) auto

lemma btaf_loop_ok:
  "i + k < length offs \<Longrightarrow> \<forall>x \<in> set offs. int x < 2 ^ 32
     \<Longrightarrow> \<exists>E. btaf_loop offs i k = Inr E \<and> length E = 8 * k"
proof (induction k arbitrary: i)
  case 0
  show ?case by simp
next
  case (Suc k)
  from Suc.prems have i: "i < length offs" "i + 1 < length offs" by simp_all
  with Suc.prems(2) have r: "int (offs ! i) < 2 ^ 32" "int (offs ! (i + 1)) < 2 ^ 32"
    by (simp_all only: nth_mem)
  from pack_u32_ok [OF _ r(1)] obtain a where a: "pack_u32 (int (offs ! i)) = Inr a" "length a = 4"
    by auto
  from pack_u32_ok [OF _ r(2)] obtain b where
    b: "pack_u32 (int (offs ! (i + 1))) = Inr b" "length b = 4"
    by auto
  from Suc.IH [of "i + 1"] Suc.prems obtain E where
    E: "btaf_loop offs (i + 1) k = Inr E" "length E = 8 * k"
    by auto
  show ?case
    using i a b E by (simp add: get_def bind_err_def)
qed

lemma read_entries_btaf:
  "btaf_loop offs i k = Inr E \<Longrightarrow> length pre = eo + i * 8
     \<Longrightarrow> read_entries (pre @ E @ post) eo i k
           = Inr (map (\<lambda>j. (offs ! j, offs ! (j + 1))) [i..<i + k])"
proof (induction k arbitrary: i pre E)
  case 0
  then show ?case by simp
next
  case (Suc k)
  from Suc.prems(1) obtain a b rest where
    a: "pack_u32 (int (offs ! i)) = Inr a"
    and b: "pack_u32 (int (offs ! (i + 1))) = Inr b"
    and rest: "btaf_loop offs (i + 1) k = Inr rest"
    and E: "E = a @ b @ rest"
    by (auto simp: bind_err_def get_def split: sum.splits if_splits)
  have la: "length a = 4" and lb: "length b = 4"
    using a b by (auto dest: pack_u32_length)
  have r1: "u32 (pre @ E @ post) (eo + i * 8) = Inr (offs ! i)"
    using u32_pack_u32 [OF a, of pre "b @ rest @ post"] Suc.prems(2) by (simp add: E)
  have r2: "u32 (pre @ E @ post) (eo + i * 8 + 4) = Inr (offs ! (i + 1))"
    using u32_pack_u32 [OF b, of "pre @ a" "rest @ post"] Suc.prems(2) la by (simp add: E)
  have r3: "read_entries (pre @ E @ post) eo (i + 1) k
      = Inr (map (\<lambda>j. (offs ! j, offs ! (j + 1))) [i + 1..<i + 1 + k])"
    using Suc.IH [OF rest, of "pre @ a @ b"] Suc.prems(2) la lb by (simp add: E)
  have u: "[i..<i + Suc k] = i # [i + 1..<i + 1 + k]"
    by (simp add: upt_conv_Cons)
  show ?case
    unfolding read_entries.simps r1 r2 r3 u by (simp add: bind_err_def)
qed

lemma slice_in_append:
  "slice (p @ G) (length p + s) (length p + e) = slice G s e"
  by (simp add: slice_def)

lemma slice_middle: "slice (p @ xs @ q) (length p) (length p + length xs) = xs"
  by (simp add: slice_def)

lemma starts_bound_nth0:
  "(starts m fs @ [m + length (concat (map pad4 fs))]) ! 0 = m"
  by (cases fs) simp_all

lemma files_from_pool:
  "map (\<lambda>j. slice (pre @ concat (map pad4 fs))
              ((starts (length pre) fs @ [length pre + length (concat (map pad4 fs))]) ! j)
              ((starts (length pre) fs @ [length pre + length (concat (map pad4 fs))]) ! (j + 1)))
       [0..<length fs]
   = map pad4 fs"
proof (induction fs arbitrary: pre)
  case Nil
  show ?case by simp
next
  case (Cons f fs)
  let ?O' = "starts (length (pre @ pad4 f)) fs
              @ [length (pre @ pad4 f) + length (concat (map pad4 fs))]"
  have O: "starts (length pre) (f # fs) @ [length pre + length (concat (map pad4 (f # fs)))]
      = length pre # ?O'"
    by (simp add: add.assoc)
  have B: "pre @ concat (map pad4 (f # fs)) = (pre @ pad4 f) @ concat (map pad4 fs)"
    by simp
  have u: "[0..<length (f # fs)] = 0 # map Suc [0..<length fs]"
    by (simp add: upt_conv_Cons map_Suc_upt del: upt_Suc)
  have h: "?O' ! 0 = length pre + length (pad4 f)"
    using starts_bound_nth0 [of "length (pre @ pad4 f)" fs] by simp
  have first: "slice (pre @ concat (map pad4 (f # fs))) (length pre) (length pre + length (pad4 f))
      = pad4 f"
    using slice_middle [of pre "pad4 f" "concat (map pad4 fs)"] by simp
  show ?case
    unfolding O u
    using Cons.IH [of "pre @ pad4 f"] h first
    by (simp add: comp_def del: upt_Suc)
qed

lemma pack_u16_ok:
  "0 \<le> v \<Longrightarrow> v < 2 ^ 16 \<Longrightarrow> \<exists>bs. pack_u16 v = Inr bs \<and> length bs = 2"
  by (simp add: pack_u16_def)

lemma align4_btaf: "align4 (12 + 8 * int n) = 12 + 8 * int n"
proof -
  have "12 + 8 * int n + 3 = 3 + 4 * (3 + 2 * int n)" by simp
  then have "(12 + 8 * int n + 3) div 4 = 3 + 2 * int n"
    by (simp only: div_mult_self2 [of 4 3 "3 + 2 * int n"])
  then show ?thesis by (simp add: align4_eq)
qed

lemma parse_layout:
  assumes gs: "length gs = 4"
    and E: "btaf_loop (starts 0 L @ [length (concat (map pad4 L))]) 0 (length L) = Inr E"
    and lE: "length E = 8 * length L"
    and bs: "pack_u32 (int (12 + 8 * length L)) = Inr bs"
    and fc: "pack_u32 (int (length L)) = Inr fc"
    and bn: "pack_u32 (int 16) = Inr bn"
    and lH: "length H = 12"
  shows "parse_narc ((NARC @ H) @ (BTAF @ bs @ fc @ E) @ (BTNF @ bn @ replicate 8 0)
                      @ (GMIF @ gs @ concat (map pad4 L)))
         = Inr (map pad4 L)"
proof -
  let ?G = "concat (map pad4 L)"
  let ?n = "length L"
  let ?O = "starts 0 L @ [length ?G]"
  define blob where "blob = (NARC @ H) @ (BTAF @ bs @ fc @ E) @ (BTNF @ bn @ replicate 8 0)
                      @ (GMIF @ gs @ ?G)"
  have lbs: "length bs = 4" and lfc: "length fc = 4" and lbn: "length bn = 4"
    using bs fc bn by (auto dest: pack_u32_length)
  have lN: "length NARC = 4" "length BTAF = 4" "length BTNF = 4" "length GMIF = 4"
    by (simp_all add: NARC_def BTAF_def BTNF_def GMIF_def)
  have s1: "slice blob 0 4 = NARC"
    using slice_middle [of "[]" NARC "H @ (BTAF @ bs @ fc @ E) @ (BTNF @ bn @ replicate 8 0)
                      @ (GMIF @ gs @ ?G)"] lN
    by (simp add: blob_def)
  have s2: "slice blob 16 20 = BTAF"
    using slice_middle [of "NARC @ H" BTAF "bs @ fc @ E @ (BTNF @ bn @ replicate 8 0)
                      @ (GMIF @ gs @ ?G)"] lN lH
    by (simp add: blob_def)
  have r1: "u32 blob 20 = Inr (12 + 8 * ?n)"
    using u32_pack_u32 [OF bs, of "NARC @ H @ BTAF" "fc @ E @ (BTNF @ bn @ replicate 8 0)
                      @ (GMIF @ gs @ ?G)"] lN lH
    by (simp add: blob_def)
  have r2: "u32 blob 24 = Inr ?n"
    using u32_pack_u32 [OF fc, of "NARC @ H @ BTAF @ bs" "E @ (BTNF @ bn @ replicate 8 0)
                      @ (GMIF @ gs @ ?G)"] lN lH lbs
    by (simp add: blob_def)
  have r3: "read_entries blob 28 0 ?n = Inr (map (\<lambda>j. (?O ! j, ?O ! (j + 1))) [0..<?n])"
    using read_entries_btaf [OF E, of "NARC @ H @ BTAF @ bs @ fc" 28
        "(BTNF @ bn @ replicate 8 0) @ (GMIF @ gs @ ?G)"] lN lH lbs lfc
    by (simp add: blob_def)
  have s3: "slice blob (28 + 8 * ?n) (32 + 8 * ?n) = BTNF"
    using slice_middle [of "NARC @ H @ BTAF @ bs @ fc @ E" BTNF "bn @ replicate 8 0
                      @ (GMIF @ gs @ ?G)"] lN lH lbs lfc lE
    by (simp add: blob_def)
  have r4: "u32 blob (32 + 8 * ?n) = Inr 16"
    using u32_pack_u32 [OF bn, of "NARC @ H @ BTAF @ bs @ fc @ E @ BTNF" "replicate 8 0
                      @ (GMIF @ gs @ ?G)"] lN lH lbs lfc lE
    by (simp add: blob_def)
  have s4: "slice blob (44 + 8 * ?n) (48 + 8 * ?n) = GMIF"
    using slice_middle [of "NARC @ H @ BTAF @ bs @ fc @ E @ BTNF @ bn @ replicate 8 0" GMIF
        "gs @ ?G"] lN lH lbs lfc lE lbn
    by (simp add: blob_def)
  have f: "slice blob (52 + 8 * ?n + s) (52 + 8 * ?n + e) = slice ?G s e" for s e
    using slice_in_append [of "NARC @ H @ BTAF @ bs @ fc @ E @ BTNF @ bn @ replicate 8 0
        @ GMIF @ gs" ?G s e] lN lH lbs lfc lE lbn gs
    by (simp add: blob_def)
  have files: "map (\<lambda>j. slice ?G (?O ! j) (?O ! (j + 1))) [0..<?n] = map pad4 L"
    using files_from_pool [of "[]" L] by simp
  have "parse_narc blob = Inr (map pad4 L)"
    using s1 s2 r1 r2 r3 s3 r4 s4 files
    by (simp add: parse_narc_def Let_def bind_err_def f comp_def del: upt_Suc)
  then show ?thesis by (simp only: blob_def)
qed

lemma build_layout:
  assumes bound: "52 + 8 * length L + length (concat (map pad4 L)) < 2 ^ 32"
  shows "\<exists>gs E bs fc bn H.
      length gs = 4
    \<and> btaf_loop (starts 0 L @ [length (concat (map pad4 L))]) 0 (length L) = Inr E
    \<and> length E = 8 * length L
    \<and> pack_u32 (int (12 + 8 * length L)) = Inr bs
    \<and> pack_u32 (int (length L)) = Inr fc
    \<and> pack_u32 (int 16) = Inr bn
    \<and> length H = 12
    \<and> build_narc L = Inr ((NARC @ H) @ (BTAF @ bs @ fc @ E) @ (BTNF @ bn @ replicate 8 0)
                            @ (GMIF @ gs @ concat (map pad4 L)))"
proof -
  let ?G = "concat (map pad4 L)"
  let ?n = "length L"
  let ?O = "starts 0 L @ [length ?G]"
  have g: "gmif_loop L [] [] = (?G, starts 0 L)"
    using gmif_loop_eq [of "[]" L "[]"] by simp
  have b32: "(2::int) ^ 32 = 4294967296" "(2::nat) ^ 32 = 4294967296" by simp_all
  from bound have bnd: "52 + 8 * int ?n + int (length ?G) < 4294967296"
    unfolding b32 by linarith
  obtain gs where gs: "pack_u32 (8 + int (length ?G)) = Inr gs" "length gs = 4"
    using pack_u32_ok [of "8 + int (length ?G)"] bnd unfolding b32 by auto
  have offs: "\<forall>x \<in> set ?O. int x < 2 ^ 32"
  proof
    fix x assume "x \<in> set ?O"
    then have "x \<le> length ?G"
      using starts_le [of x 0 L] by auto
    with bnd show "int x < 2 ^ 32" unfolding b32 by linarith
  qed
  obtain E where E: "btaf_loop ?O 0 ?n = Inr E" "length E = 8 * ?n"
    using btaf_loop_ok [of 0 ?n ?O, OF _ offs] by (auto simp: length_starts)
  obtain bs where bs: "pack_u32 (int (12 + 8 * ?n)) = Inr bs" "length bs = 4"
    using pack_u32_ok [of "int (12 + 8 * ?n)"] bnd unfolding b32 by auto
  obtain fc where fc: "pack_u32 (int ?n) = Inr fc" "length fc = 4"
    using pack_u32_ok [of "int ?n"] bnd unfolding b32 by auto
  obtain bn where bn: "pack_u32 (int 16) = Inr bn" "length bn = 4"
    using pack_u32_ok [of "int 16"] unfolding b32 by auto
  obtain ts where ts: "pack_u32 (52 + 8 * int ?n + int (length ?G)) = Inr ts" "length ts = 4"
    using pack_u32_ok [of "52 + 8 * int ?n + int (length ?G)"] bnd unfolding b32 by auto
  obtain h1 where h1: "pack_u16 16 = Inr h1" "length h1 = 2"
    using pack_u16_ok [of 16] by auto
  obtain h2 where h2: "pack_u16 3 = Inr h2" "length h2 = 2"
    using pack_u16_ok [of 3] by auto
  have lN: "length NARC = 4" "length BTAF = 4" "length BTNF = 4" "length GMIF = 4"
    by (simp_all add: NARC_def BTAF_def BTNF_def GMIF_def)
  have al: "align4 (12 + int (length E)) = 12 + 8 * int ?n"
    using align4_btaf [of ?n] E(2) by simp
  have tot: "16 + int (length (BTAF @ bs @ fc @ E @ []))
               + int (length (BTNF @ bn @ replicate 8 0)) + int (length (GMIF @ gs @ ?G))
             = 52 + 8 * int ?n + int (length ?G)"
    using lN gs(2) bs(2) fc(2) bn(2) E(2) by simp
  have pz: "replicate (nat (12 + 8 * int ?n - (12 + int (length E)))) (0::byte) = []"
    using E(2) by simp
  have bs': "pack_u32 (12 + 8 * int ?n) = Inr bs"
    using bs(1) by simp
  have bn': "pack_u32 16 = Inr bn"
    using bn(1) by simp
  have "build_narc L = Inr ((NARC @ ([254, 255] @ [0, 1] @ ts @ h1 @ h2))
                            @ (BTAF @ bs @ fc @ E) @ (BTNF @ bn @ replicate 8 0)
                            @ (GMIF @ gs @ ?G))"
    unfolding build_narc_def g prod.case Let_def gs(1) bind_err_def sum.case E(1) al bs'
      fc(1) bn' tot ts(1) h1(1) h2(1) pz
    by simp
  moreover have "length ([254, 255] @ [0, 1] @ ts @ h1 @ h2) = 12"
    using ts(2) h1(2) h2(2) by simp
  ultimately show ?thesis
    using gs(2) E bs(1) fc(1) bn(1) by blast
qed

lemma starts_step:
  "i < length fs \<Longrightarrow>
     (starts m fs @ [m + length (concat (map pad4 fs))]) ! (i + 1)
       = (starts m fs @ [m + length (concat (map pad4 fs))]) ! i + length (pad4 (fs ! i))"
proof (induction fs arbitrary: m i)
  case Nil
  then show ?case by simp
next
  case (Cons f fs)
  show ?case
  proof (cases i)
    case 0
    then show ?thesis
      using starts_bound_nth0 [of "m + length (pad4 f)" fs] by (simp add: add.assoc)
  next
    case (Suc j)
    with Cons.prems have "j < length fs" by simp
    from Cons.IH [OF this, of "m + length (pad4 f)"] Suc show ?thesis
      by (simp add: add.assoc)
  qed
qed

lemma pad4_id_iff: "pad4 f = f \<longleftrightarrow> length f mod 4 = 0"
proof
  assume "pad4 f = f"
  then show "length f mod 4 = 0" using length_pad4 [of f] by simp
next
  assume "length f mod 4 = 0"
  then show "pad4 f = f" by (rule pad4_aligned)
qed

lemma map_pad4_id_iff: "map pad4 L = L \<longleftrightarrow> (\<forall>f\<in>set L. length f mod 4 = 0)"
  by (induction L) (auto simp: pad4_id_iff)

lemma narc_parse_build:
  assumes "52 + 8 * length L + length (concat (map pad4 L)) < 2 ^ 32"
  shows "bind_err (build_narc L) parse_narc = Inr (map pad4 L)"
proof -
  from build_layout [OF assms] obtain gs E bs fc bn H where
    h: "length gs = 4"
      "btaf_loop (starts 0 L @ [length (concat (map pad4 L))]) 0 (length L) = Inr E"
      "length E = 8 * length L"
      "pack_u32 (int (12 + 8 * length L)) = Inr bs"
      "pack_u32 (int (length L)) = Inr fc"
      "pack_u32 (int 16) = Inr bn"
      "length H = 12"
    and b: "build_narc L = Inr ((NARC @ H) @ (BTAF @ bs @ fc @ E) @ (BTNF @ bn @ replicate 8 0)
                            @ (GMIF @ gs @ concat (map pad4 L)))"
    by blast
  show ?thesis
    unfolding b bind_err_def sum.case by (rule parse_layout [OF h])
qed

subsection \<open>The header update and the resolution loop\<close>
















section \<open>Claims about decompress_lz10\<close>

text \<open>
  Claim C4, as the code has it. The claim says that for every input whose first byte is
  the tag 0x10 the output length equals the declared 24-bit length N, also for a
  truncated payload. The loop stops when the input is exhausted, so a truncated payload
  gives fewer than N bytes: the header \<open>10 05 00 00\<close> with no payload declares 5 bytes
  and decodes to the empty string.
\<close>

theorem decompress_lz10_truncated_counterexample:
  "decompress_lz10 [16, 5, 0, 0] = Inr [] \<and> length ([] :: byte list) \<noteq> 5"
  by (simp add: decompress_lz10_def bind_err_def get_def outer_loop.simps)

text \<open>
  Claim C4, amended. For every input of at least four bytes whose first byte is the tag
  0x10, decompress_lz10 returns an output, the first N bytes of what the loop produced,
  whose length equals the declared 24-bit length N unless the loop ended with the read
  position at or past the end of the input; in that case the output is shorter than N.
  The output is never longer than N.
\<close>

theorem decompress_lz10_length_eq_or_exhausted:
  assumes "4 \<le> length data" and "data ! 0 = 16"
  shows "\<exists>s raw.
       outer_loop data (unat (data ! 1) + 256 * unat (data ! 2) + 65536 * unat (data ! 3)) 4 []
         = Inr (s, raw)
     \<and> decompress_lz10 data
         = Inr (take (unat (data ! 1) + 256 * unat (data ! 2) + 65536 * unat (data ! 3)) raw)
     \<and> (length (take (unat (data ! 1) + 256 * unat (data ! 2) + 65536 * unat (data ! 3)) raw)
           = unat (data ! 1) + 256 * unat (data ! 2) + 65536 * unat (data ! 3)
         \<or> length (take (unat (data ! 1) + 256 * unat (data ! 2) + 65536 * unat (data ! 3)) raw)
               < unat (data ! 1) + 256 * unat (data ! 2) + 65536 * unat (data ! 3)
             \<and> length data \<le> s)"
proof -
  let ?N = "unat (data ! 1) + 256 * unat (data ! 2) + 65536 * unat (data ! 3)"
  from decompress_lz10_tagged [OF assms] obtain s raw where
    r: "outer_loop data ?N 4 [] = Inr (s, raw)"
    and d: "decompress_lz10 data = Inr (take ?N raw)"
    by blast
  from outer_loop_exit [OF r] have "?N \<le> length raw \<or> length data \<le> s" .
  then have "length (take ?N raw) = ?N \<or> length (take ?N raw) < ?N \<and> length data \<le> s"
    by auto
  with r d show ?thesis by blast
qed

theorem decompress_lz10_length_eq_or_exhausted_witness:
  "4 \<le> length [16 :: byte, 6, 0, 0, 32, 65, 66, 0, 1, 67]
   \<and> [16 :: byte, 6, 0, 0, 32, 65, 66, 0, 1, 67] ! 0 = 16
   \<and> outer_loop [16, 6, 0, 0, 32, 65, 66, 0, 1, 67] 6 4 [] = Inr (10, [65, 66, 65, 66, 65, 67])
   \<and> decompress_lz10 [16, 6, 0, 0, 32, 65, 66, 0, 1, 67] = Inr [65, 66, 65, 66, 65, 67]
   \<and> length [65, 66, 65, 66, 65, 67 :: byte] = 6
   \<and> 4 \<le> length [16 :: byte, 5, 0, 0, 0, 65, 66]
   \<and> outer_loop [16, 5, 0, 0, 0, 65, 66] 5 4 [] = Inr (7, [65, 66])
   \<and> decompress_lz10 [16, 5, 0, 0, 0, 65, 66] = Inr [65, 66]
   \<and> length [65, 66 :: byte] < 5 \<and> length [16 :: byte, 5, 0, 0, 0, 65, 66] \<le> 7"
proof -
  have a: "outer_loop [16, 6, 0, 0, 32, 65, 66, 0, 1, 67] 6 4 []
      = Inr (10, [65, 66, 65, 66, 65, 67])"
    by code_simp
  have b: "outer_loop [16, 5, 0, 0, 0, 65, 66] 5 4 [] = Inr (7, [65, 66])"
    by code_simp
  from decompress_lz10_length_eq_or_exhausted [of "[16, 6, 0, 0, 32, 65, 66, 0, 1, 67]"]
    decompress_lz10_length_eq_or_exhausted [of "[16, 5, 0, 0, 0, 65, 66]"] a b
  show ?thesis by simp
qed

text \<open>
  Claim C7. The claim says decompress_lz10 is total and never indexes out of bounds on
  any input. The reads of the three length bytes (line 4) are not guarded: on the
  one-byte input \<open>10\<close> the read \<open>data[1]\<close> raises IndexError.
\<close>

theorem decompress_lz10_short_header:
  "decompress_lz10 [16] = Inl IndexError"
  by (simp add: decompress_lz10_def bind_err_def get_def)

text \<open>
  Claim C9. For every input that is empty or whose first byte is not the tag 0x10,
  decompress_lz10 returns the input unchanged: a pass-through, not an error.
\<close>

theorem decompress_lz10_passthrough:
  "data = [] \<or> hd data \<noteq> 16 \<Longrightarrow> decompress_lz10 data = Inr data"
  by (cases data) (auto simp: decompress_lz10_def bind_err_def get_def)

theorem decompress_lz10_passthrough_witness:
  "([] :: byte list) = [] \<and> decompress_lz10 [] = Inr []
   \<and> hd [78 :: byte, 65, 82, 67] \<noteq> 16
   \<and> decompress_lz10 [78, 65, 82, 67] = Inr [78, 65, 82, 67]"
  using decompress_lz10_passthrough [of "[]"]
    decompress_lz10_passthrough [of "[78, 65, 82, 67]"]
  by simp

section \<open>Claims about the rebuild engine and the tracker\<close>

text \<open>
  Claim C3. For a resolved modification whose index is inside the table: when the
  replacement is at most as large as the old entry, the entry becomes
  \<open>[start, start + new_size)\<close> with the start unchanged and the cursor stays; otherwise
  the entry becomes \<open>[A, A + new_size)\<close> and the cursor advances to \<open>A + new_size\<close>,
  where \<open>A = _align4(cursor)\<close> is the smallest multiple of 4 at or after the cursor.
  Entries read from a ROM have non-negative starts, and the cursor starts at the file length.
\<close>

theorem apply_mod_entry:
  assumes idx: "0 \<le> fat_index m" "fat_index m < int (length fat)"
    and start: "0 \<le> start_addr (fat ! nat (fat_index m))"
    and cur: "0 \<le> cur"
  shows "(mod_size m \<le> entry_size (fat ! nat (fat_index m)) \<longrightarrow>
            (\<exists>rom'. apply_mod m (rom, fat, cur)
               = Inr (rom',
                      fat[nat (fat_index m) :=
                            \<lparr>start_addr = start_addr (fat ! nat (fat_index m)),
                             end_addr = start_addr (fat ! nat (fat_index m)) + mod_size m\<rparr>],
                      cur)))
       \<and> (\<not> mod_size m \<le> entry_size (fat ! nat (fat_index m)) \<longrightarrow>
            (\<exists>rom'. apply_mod m (rom, fat, cur)
               = Inr (rom',
                      fat[nat (fat_index m) :=
                            \<lparr>start_addr = align4 cur, end_addr = align4 cur + mod_size m\<rparr>],
                      align4 cur + mod_size m)))
       \<and> align4 cur mod 4 = 0 \<and> cur \<le> align4 cur
       \<and> (\<forall>B. B mod 4 = 0 \<and> cur \<le> B \<longrightarrow> align4 cur \<le> B)"
proof -
  have a: "0 \<le> align4 cur" using cur by (rule align4_nonneg)
  have small: "\<exists>rom'. apply_mod m (rom, fat, cur)
               = Inr (rom',
                      fat[nat (fat_index m) :=
                            \<lparr>start_addr = start_addr (fat ! nat (fat_index m)),
                             end_addr = start_addr (fat ! nat (fat_index m)) + mod_size m\<rparr>],
                      cur)"
    if "mod_size m \<le> entry_size (fat ! nat (fat_index m))"
    using that idx start by (simp add: apply_mod_def Let_def bind_err_def seek_write_def)
  have big: "\<exists>rom'. apply_mod m (rom, fat, cur)
               = Inr (rom',
                      fat[nat (fat_index m) :=
                            \<lparr>start_addr = align4 cur, end_addr = align4 cur + mod_size m\<rparr>],
                      align4 cur + mod_size m)"
    if "\<not> mod_size m \<le> entry_size (fat ! nat (fat_index m))"
    using that idx cur a by (simp add: apply_mod_def Let_def bind_err_def seek_write_def)
  from small big align4_least [of cur] show ?thesis by simp
qed

theorem apply_mod_entry_witness:
  "(\<exists>rom'. apply_mod
       \<lparr>file_path = ''b.bin'', new_data = replicate 80 7, mod_type = ''direct'',
          timestamp = 0, fat_index = 0\<rparr>
       ([], [\<lparr>start_addr = 100, end_addr = 250\<rparr>], 1000)
     = Inr (rom', [\<lparr>start_addr = 100, end_addr = 180\<rparr>], 1000))
   \<and> (\<exists>rom'. apply_mod
       \<lparr>file_path = ''b.bin'', new_data = replicate 300 7, mod_type = ''direct'',
          timestamp = 0, fat_index = 0\<rparr>
       ([], [\<lparr>start_addr = 100, end_addr = 250\<rparr>], 1001)
     = Inr (rom', [\<lparr>start_addr = 1004, end_addr = 1304\<rparr>], 1304))"
  using apply_mod_entry [of "\<lparr>file_path = ''b.bin'', new_data = replicate 80 7,
        mod_type = ''direct'', timestamp = 0, fat_index = 0\<rparr>"
      "[\<lparr>start_addr = 100, end_addr = 250\<rparr>]" 1000 "[]"]
    apply_mod_entry [of "\<lparr>file_path = ''b.bin'', new_data = replicate 300 7,
        mod_type = ''direct'', timestamp = 0, fat_index = 0\<rparr>"
      "[\<lparr>start_addr = 100, end_addr = 250\<rparr>]" 1001 "[]"]
  by (simp add: mod_size_def entry_size_def align4_eq)

text \<open>
  Claim C6. The table returned by \<open>_apply_modifications\<close> has as many entries as the
  original, entries at indices that no modification targets are unchanged (a modification
  whose index is out of range is skipped), and the table that \<open>_write_fat\<close> writes reads
  back, over the original table's extent, as exactly that table.
\<close>

theorem fat_cardinality_invariant:
  assumes "apply_modifications rom fat mods cb = Some (fat', rom')"
    and "write_fat rom' addr fat' = Some rom''"
  shows "length fat' = length fat
     \<and> (\<forall>i < length fat. int i \<notin> fat_index ` set mods \<longrightarrow> fat' ! i = fat ! i)
     \<and> load_fat rom'' addr (8 * int (length fat)) = Some fat'"
proof -
  from assms(1) obtain cur' where
    "apply_loop cb 0 mods (rom, fat, int (length rom)) = Inr (rom', fat', cur')"
    by (auto simp: apply_modifications_def split: sum.splits)
  from apply_loop_fat [OF this] write_fat_load_fat [OF assms(2)]
  show ?thesis by simp
qed

theorem fat_cardinality_invariant_witness:
  "apply_modifications (replicate 16 0 @ [1, 2, 3, 4, 5, 6, 7, 8])
      [\<lparr>start_addr = 16, end_addr = 20\<rparr>, \<lparr>start_addr = 20, end_addr = 24\<rparr>]
      [\<lparr>file_path = ''a.bin'', new_data = [9, 9], mod_type = ''direct'',
          timestamp = 0, fat_index = 0\<rparr>,
       \<lparr>file_path = ''b.bin'', new_data = [7, 7, 7, 7, 7, 7], mod_type = ''direct'',
          timestamp = 1, fat_index = 1\<rparr>,
       \<lparr>file_path = ''c.bin'', new_data = [5], mod_type = ''direct'',
          timestamp = 2, fat_index = 7\<rparr>]
      None
    = Some ([\<lparr>start_addr = 16, end_addr = 18\<rparr>, \<lparr>start_addr = 24, end_addr = 30\<rparr>],
            replicate 16 0 @ [9, 9, 3, 4, 5, 6, 7, 8, 7, 7, 7, 7, 7, 7])
   \<and> write_fat (replicate 16 0 @ [9, 9, 3, 4, 5, 6, 7, 8, 7, 7, 7, 7, 7, 7]) 0
         [\<lparr>start_addr = 16, end_addr = 18\<rparr>, \<lparr>start_addr = 24, end_addr = 30\<rparr>]
       = Some [16, 0, 0, 0, 18, 0, 0, 0, 24, 0, 0, 0, 30, 0, 0, 0,
               9, 9, 3, 4, 5, 6, 7, 8, 7, 7, 7, 7, 7, 7]
   \<and> length [\<lparr>start_addr = 16, end_addr = 18\<rparr>, \<lparr>start_addr = 24, end_addr = 30\<rparr>] = (2::nat)
   \<and> load_fat [16, 0, 0, 0, 18, 0, 0, 0, 24, 0, 0, 0, 30, 0, 0, 0,
                9, 9, 3, 4, 5, 6, 7, 8, 7, 7, 7, 7, 7, 7] 0 16
       = Some [\<lparr>start_addr = 16, end_addr = 18\<rparr>, \<lparr>start_addr = 24, end_addr = 30\<rparr>]"
proof -
  have h1: "apply_modifications (replicate 16 0 @ [1, 2, 3, 4, 5, 6, 7, 8])
      [\<lparr>start_addr = 16, end_addr = 20\<rparr>, \<lparr>start_addr = 20, end_addr = 24\<rparr>]
      [\<lparr>file_path = ''a.bin'', new_data = [9, 9], mod_type = ''direct'',
          timestamp = 0, fat_index = 0\<rparr>,
       \<lparr>file_path = ''b.bin'', new_data = [7, 7, 7, 7, 7, 7], mod_type = ''direct'',
          timestamp = 1, fat_index = 1\<rparr>,
       \<lparr>file_path = ''c.bin'', new_data = [5], mod_type = ''direct'',
          timestamp = 2, fat_index = 7\<rparr>]
      None
    = Some ([\<lparr>start_addr = 16, end_addr = 18\<rparr>, \<lparr>start_addr = 24, end_addr = 30\<rparr>],
            replicate 16 0 @ [9, 9, 3, 4, 5, 6, 7, 8, 7, 7, 7, 7, 7, 7])"
    by (simp add: apply_modifications_def apply_mod_def bind_err_def seek_write_def
        mod_size_def entry_size_def align4_eq Let_def)
  have h2: "write_fat (replicate 16 0 @ [9, 9, 3, 4, 5, 6, 7, 8, 7, 7, 7, 7, 7, 7]) 0
         [\<lparr>start_addr = 16, end_addr = 18\<rparr>, \<lparr>start_addr = 24, end_addr = 30\<rparr>]
       = Some [16, 0, 0, 0, 18, 0, 0, 0, 24, 0, 0, 0, 30, 0, 0, 0,
               9, 9, 3, 4, 5, 6, 7, 8, 7, 7, 7, 7, 7, 7]"
    by (simp add: write_fat_def FATEntry_to_bytes_def pack_u32_def bind_err_def
        seek_write_def drop_bit_eq_div)
  from fat_cardinality_invariant [OF h1 h2] h1 h2 show ?thesis by simp
qed

text \<open>
  Claim C8. \<open>register\<close> with an empty payload returns False and leaves the records
  unchanged; with a non-empty payload it returns True, the canonical path then maps to the
  record just registered (so the last registration for a path is the one kept), every other
  key is untouched, and the record count is unchanged when the path was already
  registered and grows by one otherwise.
\<close>

theorem register_upsert:
  "register resolve now path [] mtype mods = (False, mods)
   \<and> (data \<noteq> [] \<longrightarrow>
        fst (register resolve now path data mtype mods) = True
        \<and> map_of (snd (register resolve now path data mtype mods)) (resolve path)
            = Some \<lparr>file_path = resolve path, new_data = data, mod_type = mtype,
                    timestamp = now, fat_index = - 1\<rparr>
        \<and> (\<forall>k. k \<noteq> resolve path \<longrightarrow>
              map_of (snd (register resolve now path data mtype mods)) k = map_of mods k)
        \<and> count (snd (register resolve now path data mtype mods))
            = (if resolve path \<in> fst ` set mods then count mods else count mods + 1))"
  by (simp add: register_def Let_def map_of_dict_set length_dict_set count_def)

theorem register_upsert_witness:
  "register (\<lambda>p. ''/x/'' @ p) 5 ''a.bin'' [] ''direct'' [] = (False, [])
   \<and> ([1, 2 :: byte] \<noteq> [] \<and>
      fst (register (\<lambda>p. ''/x/'' @ p) 6 ''a.bin'' [1, 2] ''direct''
             (snd (register (\<lambda>p. ''/x/'' @ p) 5 ''a.bin'' [3] ''layer_swap'' []))) = True
      \<and> map_of (snd (register (\<lambda>p. ''/x/'' @ p) 6 ''a.bin'' [1, 2] ''direct''
             (snd (register (\<lambda>p. ''/x/'' @ p) 5 ''a.bin'' [3] ''layer_swap'' [])))) ''/x/a.bin''
          = Some \<lparr>file_path = ''/x/a.bin'', new_data = [1, 2], mod_type = ''direct'',
                  timestamp = 6, fat_index = - 1\<rparr>
      \<and> count (snd (register (\<lambda>p. ''/x/'' @ p) 6 ''a.bin'' [1, 2] ''direct''
             (snd (register (\<lambda>p. ''/x/'' @ p) 5 ''a.bin'' [3] ''layer_swap'' [])))) = 1)"
  using register_upsert [of "\<lambda>p. ''/x/'' @ p" 5 "''a.bin''" "''direct''" "[]" "[1, 2]"]
    register_upsert [of "\<lambda>p. ''/x/'' @ p" 6 "''a.bin''" "''direct''"
      "snd (register (\<lambda>p. ''/x/'' @ p) 5 ''a.bin'' [3] ''layer_swap'' [])" "[1, 2]"]
  by (simp add: register_def count_def)

text \<open>
  Claim C10. For every byte string of length at least 512, \<open>NDSHeader.from_bytes\<close>
  succeeds and serialising the result with \<open>to_bytes\<close> gives back the first 512 bytes
  exactly, reserved regions included; for every shorter byte string \<open>from_bytes\<close>
  raises ValueError.
\<close>

theorem header_round_trip:
  "(512 \<le> length b \<longrightarrow> (\<exists>h. from_bytes b = Inr h \<and> to_bytes h = Inr (take 512 b)))
   \<and> (length b < 512 \<longrightarrow> from_bytes b = Inl ValueError)"
  using from_bytes_parsed [of b] to_bytes_parsed [of b]
  by (auto simp: from_bytes_def)

theorem header_round_trip_witness:
  "512 \<le> length (replicate 600 (7::byte))
   \<and> (\<exists>h. from_bytes (replicate 600 7) = Inr h \<and> to_bytes h = Inr (replicate 512 7))
   \<and> length [1, 2, 3 :: byte] < 512 \<and> from_bytes [1, 2, 3] = Inl ValueError"
  using header_round_trip [of "replicate 600 7"] header_round_trip [of "[1, 2, 3]"]
  by simp

section \<open>Claims about the archive container\<close>

text \<open>
  Claim C1, as the code has it. The claim says \<open>parse_narc(build_narc(L)) == L\<close> for every
  list of blobs, each entry's end offset being the content length before padding.
  \<open>build_narc\<close> takes the end of entry \<open>i\<close> from \<open>file_offsets[i + 1]\<close>, the start of
  the next file, which lies after the padding: the one-byte blob \<open>a\<close> comes back as
  \<open>a\<close> followed by three zero bytes.
\<close>

theorem narc_round_trip_counterexample:
  "bind_err (build_narc [[97]]) parse_narc = Inr [[97, 0, 0, 0]]
   \<and> [[97, 0, 0, 0]] \<noteq> [[97 :: byte]]"
proof -
  have p: "map pad4 [[97 :: byte]] = [[97, 0, 0, 0]]"
    by (simp add: pad4_def and_3_mod eval_nat_numeral)
  have b: "52 + 8 * length [[97 :: byte]] + length (concat (map pad4 [[97 :: byte]])) < 2 ^ 32"
    unfolding p by simp
  from narc_parse_build [OF b] p show ?thesis by simp
qed

text \<open>
  Claim C1, amended. For every list of blobs whose archive fits the 32-bit size fields
  (52 bytes of framing, 8 bytes per entry and the padded pool, below \<open>2^32\<close>),
  \<open>parse_narc(build_narc(L))\<close> succeeds and returns every blob followed by zero bytes up
  to the next multiple of four (\<open>pad4\<close>); it equals \<open>L\<close> exactly when every blob's
  length is a multiple of four, which includes the empty list and zero-length blobs; and
  entry \<open>i\<close> ends where entry \<open>i + 1\<close> starts, so its end minus its start is the length
  of blob \<open>i\<close> rounded up to a multiple of four.
\<close>

theorem narc_round_trip_padded:
  assumes "52 + 8 * length L + length (concat (map pad4 L)) < 2 ^ 32"
  shows "bind_err (build_narc L) parse_narc = Inr (map pad4 L)
     \<and> (bind_err (build_narc L) parse_narc = Inr L \<longleftrightarrow> (\<forall>f\<in>set L. length f mod 4 = 0))
     \<and> (\<forall>i<length L. case gmif_loop L [] [] of (gmif_data, file_offsets) \<Rightarrow>
           (file_offsets @ [length gmif_data]) ! (i + 1)
             = (file_offsets @ [length gmif_data]) ! i + length (pad4 (L ! i)))"
proof -
  have g: "gmif_loop L [] [] = (concat (map pad4 L), starts 0 L)"
    using gmif_loop_eq [of "[]" L "[]"] by simp
  have e: "\<forall>i<length L. case gmif_loop L [] [] of (gmif_data, file_offsets) \<Rightarrow>
           (file_offsets @ [length gmif_data]) ! (i + 1)
             = (file_offsets @ [length gmif_data]) ! i + length (pad4 (L ! i))"
    unfolding g prod.case using starts_step [of _ L 0] by simp
  from narc_parse_build [OF assms] e show ?thesis
    by (simp add: map_pad4_id_iff)
qed

theorem narc_round_trip_padded_witness:
  "52 + 8 * length [[97, 98, 99, 100], [], [97 :: byte]]
      + length (concat (map pad4 [[97, 98, 99, 100], [], [97 :: byte]])) < (2 :: nat) ^ 32
   \<and> bind_err (build_narc [[97, 98, 99, 100], [], [97]]) parse_narc
       = Inr [[97, 98, 99, 100], [], [97, 0, 0, 0]]"
proof -
  have p: "map pad4 [[97, 98, 99, 100], [], [97 :: byte]] = [[97, 98, 99, 100], [], [97, 0, 0, 0]]"
    by (simp add: pad4_def and_3_mod eval_nat_numeral)
  have b: "52 + 8 * length [[97, 98, 99, 100], [], [97 :: byte]]
      + length (concat (map pad4 [[97, 98, 99, 100], [], [97 :: byte]])) < (2 :: nat) ^ 32"
    unfolding p by simp
  from narc_round_trip_padded [OF b] b p show ?thesis by simp
qed

section \<open>Claims about the save operation\<close>



end
